theory Spec2Isabelle
  imports Main "HOL-Library.Multiset" "HOL-Library.Char_ord" "HOL-Library.List_Lexorder"
begin

section \<open>Kube-Warden: the time-bounded access-rule reconciler\<close>

text \<open>
  A shallow embedding of the caretaker package (the allow-list reconciler, the
  annotation codec and the expiry sweep) and of the background worker of
  \<^verbatim>\<open>server.go\<close>.
\<close>

subsection \<open>Constants and errors\<close>

definition mgmtAnnotation :: string where
  "mgmtAnnotation = ''service.caretaker.ipautomanaged''"

definition annotationKeyPrefix :: string where
  "annotationKeyPrefix = ''service.caretaker.ipaddr''"

text \<open>
  One constructor per \<^verbatim>\<open>fmt.Errorf\<close> site of the reconciler, one for an error handed
  back by the orchestration client, and one for each run-time panic the modelled code
  can raise (assignment to an entry of a nil map, dereferencing a nil list pointer).
\<close>

datatype error =
    AlreadyWhitelisted string
  | AddressNotFound
  | UnsupportedOperation string
  | Remote string
  | NilMapPanic
  | NilPointerPanic

subsection \<open>The whitelist set reconciler\<close>

text \<open>
  The two \<^verbatim>\<open>for ... range c\<close> loops of \<^verbatim>\<open>reconcileSourceRanges\<close>. The first returns
  the first entry equal to \<open>n\<close>, the second the index of the first entry equal to \<open>n\<close>
  (\<open>i\<close> is the index of the head of the remaining slice).
\<close>

fun find_equal :: "string list \<Rightarrow> string \<Rightarrow> string option" where
  "find_equal [] n = None"
| "find_equal (v # vs) n = (if v = n then Some v else find_equal vs n)"

fun find_index_from :: "nat \<Rightarrow> string list \<Rightarrow> string \<Rightarrow> nat option" where
  "find_index_from i [] n = None"
| "find_index_from i (v # vs) n = (if v = n then Some i else find_index_from (Suc i) vs n)"

text \<open>
  \<^verbatim>\<open>c[i] = c[0]; return c[1:], nil\<close>: the slot of the match is overwritten with the
  first entry and the first entry is sliced off. The index \<open>i\<close> comes from the loop, so
  it is in range and \<open>c\<close> is not empty there. The write goes to the backing array of
  the caller's slice, but both callers replace their slice by the result at once.
\<close>

definition reconcileSourceRanges :: "string list \<Rightarrow> string \<Rightarrow> string \<Rightarrow> error + string list" where
  "reconcileSourceRanges c n op =
     (if op = ''add'' then
        (case find_equal c n of
           Some v \<Rightarrow> Inl (AlreadyWhitelisted v)
         | None \<Rightarrow> Inr (c @ [n]))
      else if op = ''remove'' then
        (case find_index_from 0 c n of
           Some i \<Rightarrow> Inr (drop 1 (c[i := c ! 0]))
         | None \<Rightarrow> Inl AddressNotFound)
      else Inl (UnsupportedOperation op))"

text \<open>
  The contract of removal in the words of the specification: every original entry
  except the range, in the original order.
\<close>

definition Remove_spec :: "string list \<Rightarrow> string \<Rightarrow> error + string list" where
  "Remove_spec S a = (if a \<in> set S then Inr (filter (\<lambda>v. v \<noteq> a) S) else Inl AddressNotFound)"

text \<open>Adding a range and then removing it again, as one computation.\<close>

definition add_then_remove :: "string list \<Rightarrow> string \<Rightarrow> error + string list" where
  "add_then_remove S a =
     (case reconcileSourceRanges S a ''add'' of
        Inl err \<Rightarrow> Inl err
      | Inr S' \<Rightarrow> reconcileSourceRanges S' a ''remove'')"

subsection \<open>Wall-clock time and the timestamp layout\<close>

text \<open>
  The reading of \<^verbatim>\<open>time.Now()\<close> as calendar fields in the zone of the process.
  Zone transitions are outside the model: the clock is read in one fixed-offset zone.
\<close>

record Time =
  Year :: nat
  Month :: nat
  Day :: nat
  Hour :: nat
  Minute :: nat
  Second :: nat

definition isLeap :: "nat \<Rightarrow> bool" where
  "isLeap y = (y mod 4 = 0 \<and> (y mod 100 \<noteq> 0 \<or> y mod 400 = 0))"

definition daysIn :: "nat \<Rightarrow> nat \<Rightarrow> nat" where
  "daysIn m y =
     (if m = 2 then (if isLeap y then 29 else 28)
      else if m = 4 \<or> m = 6 \<or> m = 9 \<or> m = 11 then 30
      else 31)"

text \<open>
  The normalisation that \<^verbatim>\<open>time.Date\<close> applies to a day beyond the end of its month:
  the surplus rolls over into the following months.
\<close>

function norm_day :: "nat \<Rightarrow> nat \<Rightarrow> nat \<Rightarrow> nat \<times> nat \<times> nat" where
  "norm_day y m d =
     (if d \<le> daysIn m y then (y, m, d)
      else if 12 \<le> m then norm_day (Suc y) 1 (d - daysIn m y)
      else norm_day y (Suc m) (d - daysIn m y))"
  by pat_completeness auto
termination
  by (relation "measure (\<lambda>(y, m, d). d)") (auto simp: daysIn_def)

text \<open>
  \<^verbatim>\<open>t.AddDate(years, months, days)\<close> for non-negative arguments: the fields are
  added, a month beyond December carries into the year, the day is normalised, and the
  clock reading is kept.
\<close>

definition AddDate :: "Time \<Rightarrow> nat \<Rightarrow> nat \<Rightarrow> nat \<Rightarrow> Time" where
  "AddDate t years months days =
     (let m0 = Month t + months - 1;
          (y, m, d) = norm_day (Year t + years + m0 div 12) (m0 mod 12 + 1) (Day t + days)
      in t\<lparr>Year := y, Month := m, Day := d\<rparr>)"

definition digit :: "nat \<Rightarrow> char" where
  "digit n = char_of (48 + n)"

fun digits :: "nat \<Rightarrow> string" where
  "digits n = (if n < 10 then [digit n] else digits (n div 10) @ [digit (n mod 10)])"

declare digits.simps [simp del]

text \<open>The formatter's \<^verbatim>\<open>appendInt\<close>: decimal digits, padded with zeros up to the width.\<close>

definition appendInt :: "nat \<Rightarrow> nat \<Rightarrow> string" where
  "appendInt x width = replicate (width - length (digits x)) (CHR ''0'') @ digits x"

text \<open>\<^verbatim>\<open>t.Format("2006-01-02 15:04:05")\<close>.\<close>

definition Format :: "Time \<Rightarrow> string" where
  "Format t =
     appendInt (Year t) 4 @ ''-'' @ appendInt (Month t) 2 @ ''-'' @ appendInt (Day t) 2 @ '' '' @
     appendInt (Hour t) 2 @ '':'' @ appendInt (Minute t) 2 @ '':'' @ appendInt (Second t) 2"

text \<open>
  Reference notions for the claims about time: a reading with every field in its
  calendar range, the following calendar day, chronological order of two readings, and
  the fixed-width fields of the layout.
\<close>

definition valid_time :: "Time \<Rightarrow> bool" where
  "valid_time t =
     (1 \<le> Month t \<and> Month t \<le> 12 \<and> 1 \<le> Day t \<and> Day t \<le> daysIn (Month t) (Year t) \<and>
      Hour t < 24 \<and> Minute t < 60 \<and> Second t < 60)"


definition before :: "Time \<Rightarrow> Time \<Rightarrow> bool" where
  "before a b =
     (Year a < Year b \<or> Year a = Year b \<and>
       (Month a < Month b \<or> Month a = Month b \<and>
         (Day a < Day b \<or> Day a = Day b \<and>
           (Hour a < Hour b \<or> Hour a = Hour b \<and>
             (Minute a < Minute b \<or> Minute a = Minute b \<and> Second a < Second b)))))"

definition fixed_width :: "Time \<Rightarrow> bool" where
  "fixed_width t =
     (Year t < 10000 \<and> Month t < 100 \<and> Day t < 100 \<and> Hour t < 100 \<and> Minute t < 100 \<and>
      Second t < 100)"

definition two_digits :: "nat \<Rightarrow> string" where
  "two_digits n = [digit (n div 10), digit (n mod 10)]"

definition four_digits :: "nat \<Rightarrow> string" where
  "four_digits n =
     [digit (n div 1000), digit (n div 100 mod 10), digit (n div 10 mod 10), digit (n mod 10)]"

definition layout_string :: "Time \<Rightarrow> string" where
  "layout_string t =
     four_digits (Year t) @ ''-'' @ two_digits (Month t) @ ''-'' @ two_digits (Day t) @ '' '' @
     two_digits (Hour t) @ '':'' @ two_digits (Minute t) @ '':'' @ two_digits (Second t)"

subsection \<open>Services, the orchestration client and observable effects\<close>

text \<open>
  The fields of \<^verbatim>\<open>api_v1.Service\<close> that the package reads or writes. A nil annotation
  map is \<open>None\<close>: it reads as empty, deleting from it does nothing, and assigning to an
  entry of it panics.
\<close>

record Service =
  Name :: string
  Namespace :: string
  Annotations :: "(string \<rightharpoonup> string) option"
  LoadBalancerSourceRanges :: "string list"

text \<open>
  What the process does to the outside: a line written to standard output, or an update
  of a service submitted to the orchestration API in a namespace.
\<close>

datatype event = Printed string | UpdateCall string Service

text \<open>
  The client is an external collaborator: \<open>ServicesUpdate\<close> is the outcome of
  \<^verbatim>\<open>c.CoreV1().Services(ns).Update(s)\<close> (\<open>None\<close> is a nil error), and \<open>ServicesList\<close> is
  the pair that \<^verbatim>\<open>c.CoreV1().Services("").List(opts)\<close> returns: the items behind the
  list pointer (\<open>None\<close> for a nil pointer) and the error.
\<close>

record Clientset =
  ServicesUpdate :: "string \<Rightarrow> Service \<Rightarrow> error option"
  ServicesList :: "Service list option \<times> error option"

definition newline :: string where
  "newline = [CHR 0x0A]"

text \<open>The text of an error value, as \<^verbatim>\<open>%s\<close> prints it.\<close>

fun Error :: "error \<Rightarrow> string" where
  "Error (AlreadyWhitelisted v) = ''IP address '' @ v @ '' already whitelisted''"
| "Error AddressNotFound = ''IP address not found.''"
| "Error (UnsupportedOperation op) = ''Unsupported operation '' @ op"
| "Error (Remote msg) = msg"
| "Error NilMapPanic = ''assignment to entry in nil map''"
| "Error NilPointerPanic = ''invalid memory address or nil pointer dereference''"

definition HasPrefix :: "string \<Rightarrow> string \<Rightarrow> bool" where
  "HasPrefix s p = (length p \<le> length s \<and> take (length p) s = p)"

definition TrimPrefix :: "string \<Rightarrow> string \<Rightarrow> string" where
  "TrimPrefix s p = (if HasPrefix s p then drop (length p) s else s)"

definition lookup :: "Service \<Rightarrow> string \<Rightarrow> string option" where
  "lookup s k = (case Annotations s of None \<Rightarrow> None | Some m \<Rightarrow> m k)"

subsection \<open>The annotation codec and the two mutations\<close>

definition IsAutoManaged :: "Service \<Rightarrow> bool" where
  "IsAutoManaged s = (case lookup s mgmtAnnotation of Some v \<Rightarrow> True | None \<Rightarrow> False)"

definition applySourceRangesToSpec :: "string list \<Rightarrow> Service \<Rightarrow> Service" where
  "applySourceRangesToSpec r s = s\<lparr>LoadBalancerSourceRanges := r\<rparr>"

definition annotationKey :: "string \<Rightarrow> string" where
  "annotationKey iprange = annotationKeyPrefix @ ''.'' @ iprange"

definition updateServiceAnnotation :: "Time \<Rightarrow> string \<Rightarrow> Service \<Rightarrow> error + string \<times> Service" where
  "updateServiceAnnotation now iprange s =
     (let deadline = Format (AddDate now 0 0 2);
          annotationValue = deadline
      in case Annotations s of
           None \<Rightarrow> Inl NilMapPanic
         | Some m \<Rightarrow>
             Inr (deadline, s\<lparr>Annotations := Some (m(annotationKey iprange \<mapsto> annotationValue))\<rparr>))"

definition removeServiceAnnotation :: "string \<Rightarrow> Service \<Rightarrow> Service" where
  "removeServiceAnnotation iprange s =
     (case Annotations s of
        None \<Rightarrow> s
      | Some m \<Rightarrow> s\<lparr>Annotations := Some (m(annotationKey iprange := None))\<rparr>)"

text \<open>
  The service is mutated in place by the source; the model returns it next to the
  result, together with the extended list of effects.
\<close>

definition UpdateServiceSpec ::
  "Time \<Rightarrow> string \<Rightarrow> string \<Rightarrow> Service \<Rightarrow> Clientset \<Rightarrow> event list \<Rightarrow> (error + string) \<times> Service \<times> event list" where
  "UpdateServiceSpec now iprange ns s c w =
     (case reconcileSourceRanges (LoadBalancerSourceRanges s) iprange ''add'' of
        Inl err \<Rightarrow> (Inl err, s, w)
      | Inr ipranges \<Rightarrow>
          (let s1 = applySourceRangesToSpec ipranges s in
           case updateServiceAnnotation now iprange s1 of
             Inl p \<Rightarrow> (Inl p, s1, w)
           | Inr (deadline, s2) \<Rightarrow>
               (case ServicesUpdate c ns s2 of
                  Some err \<Rightarrow> (Inl err, s2, w @ [UpdateCall ns s2])
                | None \<Rightarrow> (Inr deadline, s2, w @ [UpdateCall ns s2]))))"

definition RemoveIpFromService ::
  "string \<Rightarrow> Service \<Rightarrow> Clientset \<Rightarrow> event list \<Rightarrow> error option \<times> Service \<times> event list" where
  "RemoveIpFromService iprange s c w =
     (let ns = Namespace s in
      case reconcileSourceRanges (LoadBalancerSourceRanges s) iprange ''remove'' of
        Inl err \<Rightarrow> (Some err, s, w)
      | Inr ipranges \<Rightarrow>
          (let s1 = applySourceRangesToSpec ipranges s;
               s2 = removeServiceAnnotation iprange s1
           in case ServicesUpdate c ns s2 of
                Some err \<Rightarrow> (Some err, s2, w @ [UpdateCall ns s2])
              | None \<Rightarrow> (None, s2, w @ [UpdateCall ns s2])))"

subsection \<open>The expiry sweep\<close>

text \<open>The test \<^verbatim>\<open>v < now\<close> on the two formatted strings: bytewise lexicographic order.\<close>

definition IsExpired :: "string \<Rightarrow> string \<Rightarrow> bool" where
  "IsExpired v now = (v < now)"

text \<open>
  The body of \<^verbatim>\<open>for a, v := range s.ObjectMeta.Annotations\<close>. The order in which the
  run time produces the keys is not specified, so it is an argument: the list of keys
  still to be visited. An entry deleted before it is reached is not produced.
\<close>

fun iterate_keys ::
  "string \<Rightarrow> string list \<Rightarrow> Service \<Rightarrow> Clientset \<Rightarrow> event list \<Rightarrow> error option \<times> Service \<times> event list" where
  "iterate_keys now [] s c w = (None, s, w)"
| "iterate_keys now (a # as) s c w =
     (case lookup s a of
        None \<Rightarrow> iterate_keys now as s c w
      | Some v \<Rightarrow>
          if HasPrefix a annotationKeyPrefix then
            if IsExpired v now then
              (let w1 = w @ [Printed (''Time to remove this rule: '' @ a @ newline)];
                   ip = TrimPrefix a (annotationKeyPrefix @ ''.'')
               in case RemoveIpFromService ip s c w1 of
                    (Some err, s', w') \<Rightarrow> (Some err, s', w')
                  | (None, s', w') \<Rightarrow> iterate_keys now as s' c w')
            else
              iterate_keys now as s c
                (w @ [Printed (''Rule for '' @ a @ '' has not expired yet'' @ newline)])
          else iterate_keys now as s c w)"

definition IterateAnnotations ::
  "Time \<Rightarrow> string list \<Rightarrow> Service \<Rightarrow> Clientset \<Rightarrow> event list \<Rightarrow> error option \<times> Service \<times> event list" where
  "IterateAnnotations clock keys s c w =
     (let now = Format clock in
      case iterate_keys now keys s c w of
        (Some err, s', w') \<Rightarrow> (Some err, s', w')
      | (None, s', w') \<Rightarrow>
          (None, s',
           w' @ [Printed (''Finished checking rules for service '' @ Name s' @ newline)]))"

definition GetServiceList :: "Clientset \<Rightarrow> Service list option" where
  "GetServiceList c = (case ServicesList c of (services, _) \<Rightarrow> services)"

text \<open>
  One tick of \<^verbatim>\<open>backgroundWorker\<close>. The environment of a tick gives the behaviour of
  the client during the tick and, for each service the loop reaches, the clock reading
  and the key order of its annotation map.
\<close>

record Tick =
  client :: Clientset
  clock_at :: "Service \<Rightarrow> Time"
  keys_of :: "Service \<Rightarrow> string list"

fun sweep_items :: "Tick \<Rightarrow> Service list \<Rightarrow> event list \<Rightarrow> event list" where
  "sweep_items t [] w = w"
| "sweep_items t (s # ss) w =
     (if IsAutoManaged s then
        (case IterateAnnotations (clock_at t s) (keys_of t s) s (client t) w of
           (Some err, s', w') \<Rightarrow> sweep_items t ss (w' @ [Printed (Error err @ newline)])
         | (None, s', w') \<Rightarrow> sweep_items t ss w')
      else sweep_items t ss w)"

definition sweep_tick :: "Tick \<Rightarrow> event list \<Rightarrow> error + event list" where
  "sweep_tick t w =
     (case GetServiceList (client t) of
        None \<Rightarrow> Inl NilPointerPanic
      | Some items \<Rightarrow> Inr (sweep_items t items w))"

text \<open>
  The loop \<^verbatim>\<open>for range time.Tick(...)\<close> never ends; the model runs it over the
  environments of the ticks that have fired so far. A panic ends the process.
\<close>

fun backgroundWorker :: "Tick list \<Rightarrow> event list \<Rightarrow> error + event list" where
  "backgroundWorker [] w = Inr w"
| "backgroundWorker (t # ts) w =
     (case sweep_tick t w of
        Inl p \<Rightarrow> Inl p
      | Inr w' \<Rightarrow> backgroundWorker ts w')"

text \<open>
  The consistency of rules and allow-list: every annotation whose key is the prefix,
  a dot and a range has that range in the allow-list.
\<close>

definition rules_consistent :: "Service \<Rightarrow> bool" where
  "rules_consistent s =
     (\<forall>r. lookup s (annotationKey r) \<noteq> None \<longrightarrow> r \<in> set (LoadBalancerSourceRanges s))"

text \<open>The updates submitted and the lines written, in order.\<close>

fun update_calls :: "event list \<Rightarrow> (string \<times> Service) list" where
  "update_calls [] = []"
| "update_calls (Printed line # w) = update_calls w"
| "update_calls (UpdateCall ns s # w) = (ns, s) # update_calls w"

fun printed :: "event list \<Rightarrow> string list" where
  "printed [] = []"
| "printed (Printed line # w) = line # printed w"
| "printed (UpdateCall ns s # w) = printed w"

subsection \<open>Concrete values used in examples\<close>

definition example_service :: Service where
  "example_service =
     \<lparr>Name = ''ingress-nginx'', Namespace = ''default'',
      Annotations = Some [mgmtAnnotation \<mapsto> ''true''],
      LoadBalancerSourceRanges = []\<rparr>"

definition example_clock :: Time where
  "example_clock = \<lparr>Year = 2024, Month = 2, Day = 28, Hour = 9, Minute = 5, Second = 0\<rparr>"

definition example_later :: Time where
  "example_later = \<lparr>Year = 2024, Month = 3, Day = 1, Hour = 9, Minute = 5, Second = 1\<rparr>"

definition accepting_client :: Clientset where
  "accepting_client = \<lparr>ServicesUpdate = (\<lambda>ns s. None), ServicesList = (Some [], None)\<rparr>"

definition granted_service :: Service where
  "granted_service =
     \<lparr>Name = ''ingress-nginx'', Namespace = ''default'',
      Annotations = Some [mgmtAnnotation \<mapsto> ''true'',
                          annotationKey ''10.0.0.1/32'' \<mapsto> ''2020-01-01 00:00:00''],
      LoadBalancerSourceRanges = [''10.0.0.1/32'']\<rparr>"

definition swept_service :: Service where
  "swept_service = removeServiceAnnotation ''10.0.0.1/32'' (applySourceRangesToSpec [] granted_service)"

definition two_rule_service :: Service where
  "two_rule_service =
     \<lparr>Name = ''ingress-nginx'', Namespace = ''default'',
      Annotations = Some [mgmtAnnotation \<mapsto> ''true'',
                          annotationKey ''10.0.0.1/32'' \<mapsto> ''2020-01-01 00:00:00'',
                          annotationKey ''10.0.0.2/32'' \<mapsto> ''2030-01-01 00:00:00''],
      LoadBalancerSourceRanges = [''10.0.0.1/32'', ''10.0.0.2/32'']\<rparr>"

definition stale_service :: Service where
  "stale_service =
     \<lparr>Name = ''ingress-nginx'', Namespace = ''default'',
      Annotations = Some [mgmtAnnotation \<mapsto> ''true'',
                          annotationKey ''10.0.0.1/32'' \<mapsto> ''2020-01-01 00:00:00'',
                          annotationKey ''10.0.0.2/32'' \<mapsto> ''2020-01-02 00:00:00''],
      LoadBalancerSourceRanges = [''10.0.0.2/32'']\<rparr>"

definition example_tick :: Tick where
  "example_tick =
     \<lparr>client = accepting_client, clock_at = (\<lambda>s. example_clock),
      keys_of = (\<lambda>s. [annotationKey ''10.0.0.1/32'', annotationKey ''10.0.0.2/32'',
                         mgmtAnnotation])\<rparr>"

definition failing_client :: Clientset where
  "failing_client =
     \<lparr>ServicesUpdate = (\<lambda>ns s. None),
      ServicesList = (Some [], Some (Remote ''connection refused''))\<rparr>"

definition failing_tick :: Tick where
  "failing_tick = \<lparr>client = failing_client, clock_at = (\<lambda>s. example_clock), keys_of = (\<lambda>s. [])\<rparr>"

section \<open>Properties\<close>

subsection \<open>Properties of the reconciler\<close>

lemma find_equal_conv: "find_equal c n = (if n \<in> set c then Some n else None)"
  by (induction c) auto

lemma find_index_from_absent: "n \<notin> set c \<Longrightarrow> find_index_from i c n = None"
  by (induction c arbitrary: i) auto

lemma find_index_from_first:
  "n \<notin> set us \<Longrightarrow> find_index_from i (us @ n # vs) n = Some (i + length us)"
  by (induction us arbitrary: i) auto

lemma overwrite_and_slice:
  "drop 1 ((us @ n # vs)[length us := (us @ n # vs) ! 0]) = rotate1 us @ vs"
  by (cases us) (simp_all add: list_update_append)

lemma mset_rotate1_same: "mset (rotate1 xs) = mset xs"
  by (cases xs) simp_all

lemma filter_absent: "a \<notin> set xs \<Longrightarrow> filter (\<lambda>v. v \<noteq> a) xs = xs"
  by (induction xs) auto

lemma reconcile_add:
  "reconcileSourceRanges c n ''add'' =
     (if n \<in> set c then Inl (AlreadyWhitelisted n) else Inr (c @ [n]))"
  by (simp add: reconcileSourceRanges_def find_equal_conv)

lemma reconcile_remove_absent:
  "n \<notin> set c \<Longrightarrow> reconcileSourceRanges c n ''remove'' = Inl AddressNotFound"
  by (simp add: reconcileSourceRanges_def find_index_from_absent)

lemma reconcile_remove_first:
  assumes "n \<notin> set us"
  shows "reconcileSourceRanges (us @ n # vs) n ''remove'' = Inr (rotate1 us @ vs)"
proof -
  from assms have "find_index_from 0 (us @ n # vs) n = Some (length us)"
    using find_index_from_first [of n us 0 vs] by simp
  then have "reconcileSourceRanges (us @ n # vs) n ''remove''
      = Inr (drop 1 ((us @ n # vs)[length us := (us @ n # vs) ! 0]))"
    unfolding reconcileSourceRanges_def by simp
  then show ?thesis
    by (simp only: overwrite_and_slice)
qed

lemma reconcile_remove_present:
  assumes "n \<in> set c"
  shows "\<exists>us vs. c = us @ n # vs \<and> n \<notin> set us \<and>
           reconcileSourceRanges c n ''remove'' = Inr (rotate1 us @ vs)"
proof -
  from assms obtain us vs where "c = us @ n # vs" "n \<notin> set us"
    by (auto dest: split_list_first)
  then show ?thesis
    using reconcile_remove_first by blast
qed

lemma reconcile_remove_mset:
  assumes "reconcileSourceRanges c n ''remove'' = Inr c'"
  shows "n \<in> set c \<and> mset c' + {#n#} = mset c"
proof -
  have present: "n \<in> set c"
    using assms reconcile_remove_absent [of n c] by auto
  then obtain us vs where "c = us @ n # vs"
      "reconcileSourceRanges c n ''remove'' = Inr (rotate1 us @ vs)"
    using reconcile_remove_present by blast
  with assms present show ?thesis by (auto simp: mset_rotate1_same)
qed

lemma reconcile_remove_keeps:
  assumes "reconcileSourceRanges c n ''remove'' = Inr c'" and "r \<in> set c" and "r \<noteq> n"
  shows "r \<in> set c'"
proof -
  from assms(1) have "mset c' + {#n#} = mset c"
    using reconcile_remove_mset by blast
  then have "set c = insert n (set c')"
    by (metis set_mset_add_mset_insert set_mset_mset union_mset_add_mset_right add.right_neutral)
  with assms(2,3) show ?thesis by auto
qed

text \<open>
  Claim C7. For every sequence and range, adding fails with the duplicate error exactly
  when the range is already in the sequence, at whatever position; otherwise it succeeds
  and returns the sequence with the range appended at the end, the existing entries
  unchanged and in their order.
\<close>

theorem add_appends_or_rejects_duplicate:
  "(reconcileSourceRanges S a ''add'' = Inl (AlreadyWhitelisted a) \<longleftrightarrow> a \<in> set S) \<and>
   reconcileSourceRanges S a ''add'' =
     (if a \<in> set S then Inl (AlreadyWhitelisted a) else Inr (S @ [a]))"
  by (simp add: reconcile_add)

text \<open>
  Claim C1, as the code has it. Removing fails with the not-found error when the range
  is absent. When it is present, with \<open>us\<close> the entries before its first occurrence
  and \<open>vs\<close> those after, removing succeeds and returns \<open>rotate1 us @ vs\<close>: the first
  entry of the sequence takes the place of the removed one. The result holds every
  original entry except that one occurrence, does not contain the range when it
  occurred once, and agrees with the order-preserving contract when the range was
  the first or the second entry.
\<close>

theorem remove_overwrites_with_first:
  "(a \<notin> set S \<longrightarrow> reconcileSourceRanges S a ''remove'' = Inl AddressNotFound) \<and>
   (a \<in> set S \<longrightarrow>
     (\<exists>us vs. S = us @ a # vs \<and> a \<notin> set us \<and>
        reconcileSourceRanges S a ''remove'' = Inr (rotate1 us @ vs) \<and>
        mset (rotate1 us @ vs) + {#a#} = mset S \<and>
        (a \<notin> set vs \<longrightarrow> a \<notin> set (rotate1 us @ vs)) \<and>
        (length us \<le> 1 \<and> a \<notin> set vs \<longrightarrow> reconcileSourceRanges S a ''remove'' = Remove_spec S a)))"
proof (intro conjI impI)
  assume "a \<notin> set S"
  then show "reconcileSourceRanges S a ''remove'' = Inl AddressNotFound"
    by (rule reconcile_remove_absent)
next
  assume "a \<in> set S"
  then obtain us vs where split: "S = us @ a # vs" "a \<notin> set us"
      and res: "reconcileSourceRanges S a ''remove'' = Inr (rotate1 us @ vs)"
    using reconcile_remove_present by blast
  have few: "rotate1 us = us" if "length us \<le> 1"
    using that by (cases us) auto
  have "reconcileSourceRanges S a ''remove'' = Remove_spec S a"
    if "length us \<le> 1 \<and> a \<notin> set vs"
    using that split res few by (auto simp: Remove_spec_def filter_absent)
  moreover have "mset (rotate1 us @ vs) + {#a#} = mset S"
    using split by (simp add: mset_rotate1_same)
  moreover have "a \<notin> set vs \<longrightarrow> a \<notin> set (rotate1 us @ vs)"
    using split by simp
  ultimately show "\<exists>us vs. S = us @ a # vs \<and> a \<notin> set us \<and>
        reconcileSourceRanges S a ''remove'' = Inr (rotate1 us @ vs) \<and>
        mset (rotate1 us @ vs) + {#a#} = mset S \<and>
        (a \<notin> set vs \<longrightarrow> a \<notin> set (rotate1 us @ vs)) \<and>
        (length us \<le> 1 \<and> a \<notin> set vs \<longrightarrow> reconcileSourceRanges S a ''remove'' = Remove_spec S a)"
    using split res by blast
qed

text \<open>The theorem at an absent range and at a range in third position.\<close>

theorem remove_overwrites_with_first_witness:
  "''10.0.0.9/32'' \<notin> set [''10.0.0.1/32''] \<and>
   reconcileSourceRanges [''10.0.0.1/32''] ''10.0.0.9/32'' ''remove'' = Inl AddressNotFound \<and>
   ''10.0.0.3/32'' \<in> set [''10.0.0.1/32'', ''10.0.0.2/32'', ''10.0.0.3/32''] \<and>
   (\<exists>c'. reconcileSourceRanges [''10.0.0.1/32'', ''10.0.0.2/32'', ''10.0.0.3/32'']
            ''10.0.0.3/32'' ''remove'' = Inr c' \<and>
          mset c' + {#''10.0.0.3/32''#} = mset [''10.0.0.1/32'', ''10.0.0.2/32'', ''10.0.0.3/32''])"
  using remove_overwrites_with_first [of "''10.0.0.9/32''" "[''10.0.0.1/32'']"]
    remove_overwrites_with_first [of "''10.0.0.3/32''" "[''10.0.0.1/32'', ''10.0.0.2/32'', ''10.0.0.3/32'']"]
  by auto

text \<open>
  Removing the third of three entries leaves the other two in exchanged order, where
  the order-preserving contract keeps them as they were.
\<close>

theorem remove_order_counterexample:
  "''10.0.0.3/32'' \<in> set [''10.0.0.1/32'', ''10.0.0.2/32'', ''10.0.0.3/32''] \<and>
   reconcileSourceRanges [''10.0.0.1/32'', ''10.0.0.2/32'', ''10.0.0.3/32''] ''10.0.0.3/32'' ''remove''
     = Inr [''10.0.0.2/32'', ''10.0.0.1/32''] \<and>
   reconcileSourceRanges [''10.0.0.1/32'', ''10.0.0.2/32'', ''10.0.0.3/32''] ''10.0.0.3/32'' ''remove''
     \<noteq> Remove_spec [''10.0.0.1/32'', ''10.0.0.2/32'', ''10.0.0.3/32''] ''10.0.0.3/32''"
  by (simp add: reconcileSourceRanges_def Remove_spec_def)

text \<open>
  Claim C2, as the code has it. For a range not in the sequence, adding it and then
  removing it succeeds and returns the sequence rotated by one place (its first entry
  moved to the end): the same entries, without the range, and the sequence itself when
  it has at most one entry.
\<close>

theorem add_then_remove_rotates:
  "a \<notin> set S \<Longrightarrow>
     add_then_remove S a = Inr (rotate1 S) \<and>
     (\<exists>S'. add_then_remove S a = Inr S' \<and> mset S' = mset S \<and> a \<notin> set S') \<and>
     (length S \<le> 1 \<longrightarrow> add_then_remove S a = Inr S)"
proof -
  assume absent: "a \<notin> set S"
  then have "add_then_remove S a = reconcileSourceRanges (S @ [a]) a ''remove''"
    by (simp add: add_then_remove_def reconcile_add)
  also have "\<dots> = Inr (rotate1 S @ [])"
    using absent by (rule reconcile_remove_first)
  finally have res: "add_then_remove S a = Inr (rotate1 S)" by simp
  have "rotate1 S = S" if "length S \<le> 1"
    using that by (cases S) auto
  with res absent show ?thesis by (auto simp: mset_rotate1_same)
qed

text \<open>The theorem at a sequence of two entries and at a sequence of one.\<close>

theorem add_then_remove_rotates_witness:
  "''10.0.0.3/32'' \<notin> set [''10.0.0.1/32'', ''10.0.0.2/32''] \<and>
   add_then_remove [''10.0.0.1/32'', ''10.0.0.2/32''] ''10.0.0.3/32''
     = Inr (rotate1 [''10.0.0.1/32'', ''10.0.0.2/32'']) \<and>
   ''10.0.0.3/32'' \<notin> set [''10.0.0.1/32''] \<and> length [''10.0.0.1/32''] \<le> 1 \<and>
   add_then_remove [''10.0.0.1/32''] ''10.0.0.3/32'' = Inr [''10.0.0.1/32'']"
  using add_then_remove_rotates [of "''10.0.0.3/32''" "[''10.0.0.1/32'', ''10.0.0.2/32'']"]
    add_then_remove_rotates [of "''10.0.0.3/32''" "[''10.0.0.1/32'']"]
  by simp

text \<open>
  With two entries in the sequence, adding a third range and removing it returns the
  two entries exchanged, not the original sequence.
\<close>

theorem add_then_remove_counterexample:
  "''10.0.0.3/32'' \<noteq> [] \<and> ''10.0.0.3/32'' \<notin> set [''10.0.0.1/32'', ''10.0.0.2/32''] \<and>
   add_then_remove [''10.0.0.1/32'', ''10.0.0.2/32''] ''10.0.0.3/32''
     = Inr [''10.0.0.2/32'', ''10.0.0.1/32''] \<and>
   add_then_remove [''10.0.0.1/32'', ''10.0.0.2/32''] ''10.0.0.3/32''
     \<noteq> Inr [''10.0.0.1/32'', ''10.0.0.2/32'']"
  by (simp add: add_then_remove_def reconcileSourceRanges_def)

subsection \<open>Properties of the timestamp layout and of stamping\<close>

lemma of_char_digit: "n < 10 \<Longrightarrow> of_char (digit n) = 48 + n"
  by (simp add: digit_def)

lemma digit_less_iff: "a < 10 \<Longrightarrow> b < 10 \<Longrightarrow> digit a < digit b \<longleftrightarrow> a < b"
  by (simp add: less_char_def of_char_digit)

lemma digit_eq_iff: "a < 10 \<Longrightarrow> b < 10 \<Longrightarrow> digit a = digit b \<longleftrightarrow> a = b"
  by (metis of_char_digit add_left_cancel)

lemma digits_one: "n < 10 \<Longrightarrow> digits n = [digit n]"
  by (subst digits.simps) simp

lemma digits_step: "10 \<le> n \<Longrightarrow> digits n = digits (n div 10) @ [digit (n mod 10)]"
  by (subst digits.simps) simp


lemma digit_zero: "CHR ''0'' = digit 0"
  by code_simp

lemma replicate_two: "replicate 2 c = [c, c]"
  by (simp add: numeral_2_eq_2)

lemma replicate_three: "replicate 3 c = [c, c, c]"
  by (simp add: numeral_3_eq_3)

lemma digits_two: "n < 100 \<Longrightarrow> 10 \<le> n \<Longrightarrow> digits n = [digit (n div 10), digit (n mod 10)]"
  by (simp add: digits_step digits_one)

lemma appendInt_two: "n < 100 \<Longrightarrow> appendInt n 2 = two_digits n"
proof (cases "n < 10")
  case True
  then show ?thesis
    by (simp add: appendInt_def two_digits_def digit_zero digits_one)
next
  case False
  assume "n < 100"
  with False show ?thesis
    by (simp add: appendInt_def two_digits_def digits_two)
qed

lemma digits_three:
  "n < 1000 \<Longrightarrow> 100 \<le> n \<Longrightarrow> digits n = [digit (n div 100), digit (n div 10 mod 10), digit (n mod 10)]"
proof -
  assume "n < 1000" "100 \<le> n"
  then have "n div 10 < 100" "10 \<le> n div 10" "10 \<le> n"
    by auto
  then have "digits n = [digit (n div 10 div 10), digit (n div 10 mod 10)] @ [digit (n mod 10)]"
    using digits_step [of n] digits_two [of "n div 10"] by (simp only:)
  moreover have "n div 10 div 10 = n div 100"
    by (simp add: div_mult2_eq [symmetric])
  ultimately show ?thesis by simp
qed

lemma digits_four:
  "n < 10000 \<Longrightarrow> 1000 \<le> n \<Longrightarrow>
     digits n = [digit (n div 1000), digit (n div 100 mod 10), digit (n div 10 mod 10), digit (n mod 10)]"
proof -
  assume "n < 10000" "1000 \<le> n"
  then have "n div 10 < 1000" "100 \<le> n div 10" "10 \<le> n"
    by auto
  then have "digits n =
      [digit (n div 10 div 100), digit (n div 10 div 10 mod 10), digit (n div 10 mod 10)] @
      [digit (n mod 10)]"
    using digits_step [of n] digits_three [of "n div 10"] by (simp only:)
  moreover have "n div 10 div 10 = n div 100" "n div 10 div 100 = n div 1000"
    by (simp_all add: div_mult2_eq [symmetric])
  ultimately show ?thesis by simp
qed

lemma appendInt_four: 
  assumes "n < 10000"
  shows "appendInt n 4 = four_digits n"
proof -
  consider "n < 10" | "10 \<le> n" "n < 100" | "100 \<le> n" "n < 1000" | "1000 \<le> n"
    by linarith
  then show ?thesis
  proof cases
    case 1
    then show ?thesis
      by (simp add: appendInt_def four_digits_def digits_one digit_zero replicate_two replicate_three)
  next
    case 2
    then show ?thesis
      by (simp add: appendInt_def four_digits_def digits_two digit_zero replicate_two replicate_three)
  next
    case 3
    then show ?thesis
      by (simp add: appendInt_def four_digits_def digits_three digit_zero replicate_two replicate_three)
  next
    case 4
    with assms show ?thesis
      by (simp add: appendInt_def four_digits_def digits_four)
  qed
qed

lemma Format_layout: "fixed_width t \<Longrightarrow> Format t = layout_string t"
  by (simp add: fixed_width_def Format_def layout_string_def appendInt_two appendInt_four)

lemma div_mod_less_iff:
  "(a::nat) < b \<longleftrightarrow> a div 10 < b div 10 \<or> a div 10 = b div 10 \<and> a mod 10 < b mod 10"
proof -
  have "a = 10 * (a div 10) + a mod 10" "b = 10 * (b div 10) + b mod 10"
      "a mod 10 < 10" "b mod 10 < 10"
    by simp_all
  then show ?thesis by linarith
qed

lemma div_mod_eq_iff: "(a::nat) = b \<longleftrightarrow> a div 10 = b div 10 \<and> a mod 10 = b mod 10"
  by (metis div_mult_mod_eq)

lemma two_digits_less: 
  assumes "a < 100" "b < 100"
  shows "two_digits a @ xs < two_digits b @ ys \<longleftrightarrow> a < b \<or> a = b \<and> xs < ys"
proof -
  have d: "a div 10 < 10" "b div 10 < 10" "a mod 10 < 10" "b mod 10 < 10"
    using assms by auto
  have "two_digits a @ xs < two_digits b @ ys \<longleftrightarrow>
     a div 10 < b div 10 \<or> a div 10 = b div 10 \<and> (a mod 10 < b mod 10 \<or> a mod 10 = b mod 10 \<and> xs < ys)"
    by (simp add: two_digits_def digit_less_iff digit_eq_iff d)
  also have "\<dots> \<longleftrightarrow> a < b \<or> a = b \<and> xs < ys"
    using div_mod_less_iff [of a b] div_mod_eq_iff [of a b] by blast
  finally show ?thesis .
qed

lemma mod_hundred_div_ten: "(n::nat) mod 100 div 10 = n div 10 mod 10"
proof -
  have "n mod (10 * 10) = 10 * (n div 10 mod 10) + n mod 10"
    by (rule mod_mult2_eq)
  then have "n mod 100 div 10 = (10 * (n div 10 mod 10) + n mod 10) div 10"
    by simp
  also have "\<dots> = n div 10 mod 10"
    by simp
  finally show ?thesis .
qed

lemma four_digits_split: "four_digits n = two_digits (n div 100) @ two_digits (n mod 100)"
proof -
  have "n div 100 div 10 = n div 1000"
    by (simp add: div_mult2_eq [symmetric])
  moreover have "n mod 100 mod 10 = n mod 10"
    by (simp add: mod_mod_cancel)
  ultimately show ?thesis
    by (simp add: four_digits_def two_digits_def mod_hundred_div_ten)
qed

lemma two_digits_less_last:
  assumes "a < 100" "b < 100"
  shows "two_digits a < two_digits b \<longleftrightarrow> a < b"
  using two_digits_less [OF assms, of "[]" "[]"] by simp

lemma hundreds_less_iff:
  "(a::nat) < b \<longleftrightarrow> a div 100 < b div 100 \<or> a div 100 = b div 100 \<and> a mod 100 < b mod 100"
proof -
  have "a = 100 * (a div 100) + a mod 100" "b = 100 * (b div 100) + b mod 100"
      "a mod 100 < 100" "b mod 100 < 100"
    by simp_all
  then show ?thesis by linarith
qed

lemma hundreds_eq_iff: "(a::nat) = b \<longleftrightarrow> a div 100 = b div 100 \<and> a mod 100 = b mod 100"
  by (metis div_mult_mod_eq)

lemma four_digits_less:
  assumes "a < 10000" "b < 10000"
  shows "four_digits a @ xs < four_digits b @ ys \<longleftrightarrow> a < b \<or> a = b \<and> xs < ys"
proof -
  have r: "a div 100 < 100" "b div 100 < 100" "a mod 100 < 100" "b mod 100 < 100"
    using assms by auto
  have "four_digits a @ xs < four_digits b @ ys \<longleftrightarrow>
      a div 100 < b div 100 \<or> a div 100 = b div 100 \<and>
        (a mod 100 < b mod 100 \<or> a mod 100 = b mod 100 \<and> xs < ys)"
    by (simp add: four_digits_split two_digits_less r)
  also have "\<dots> \<longleftrightarrow> a < b \<or> a = b \<and> xs < ys"
    using hundreds_less_iff [of a b] hundreds_eq_iff [of a b] by blast
  finally show ?thesis .
qed

lemma layout_string_less:
  assumes "fixed_width d" "fixed_width n"
  shows "layout_string d < layout_string n \<longleftrightarrow> before d n"
  using assms
  by (simp add: fixed_width_def layout_string_def before_def four_digits_less two_digits_less
      two_digits_less_last)

lemma Format_less:
  assumes "fixed_width d" "fixed_width n"
  shows "Format d < Format n \<longleftrightarrow> before d n"
  using assms by (simp add: Format_layout layout_string_less)


lemma daysIn_bounds: "28 \<le> daysIn m y \<and> daysIn m y \<le> 31"
  by (simp add: daysIn_def)

lemma norm_day_within: "d \<le> daysIn m y \<Longrightarrow> norm_day y m d = (y, m, d)"
  by simp

lemma norm_day_next:
  assumes "daysIn m y < d" "d \<le> daysIn m y + 28"
  shows "norm_day y m d =
    (if 12 \<le> m then (Suc y, 1, d - daysIn m y) else (y, Suc m, d - daysIn m y))"
proof -
  have small: "d - daysIn m y \<le> daysIn m' y'" for m' y'
    using assms(2) daysIn_bounds [of m' y'] by linarith
  show ?thesis
  proof (cases "12 \<le> m")
    case True
    with assms(1) have "norm_day y m d = norm_day (Suc y) 1 (d - daysIn m y)"
      by (subst norm_day.simps) simp
    with True small show ?thesis
      by (simp add: norm_day_within del: norm_day.simps)
  next
    case False
    with assms(1) have "norm_day y m d = norm_day y (Suc m) (d - daysIn m y)"
      by (subst norm_day.simps) simp
    with False small show ?thesis
      by (simp add: norm_day_within del: norm_day.simps)
  qed
qed

lemma AddDate_two_days:
  assumes "valid_time t"
  shows "AddDate t 0 0 2 =
    (if Day t + 2 \<le> daysIn (Month t) (Year t) then t\<lparr>Day := Day t + 2\<rparr>
     else if Month t = 12
       then t\<lparr>Year := Suc (Year t), Month := 1, Day := Day t + 2 - daysIn (Month t) (Year t)\<rparr>
       else t\<lparr>Month := Suc (Month t), Day := Day t + 2 - daysIn (Month t) (Year t)\<rparr>)"
proof -
  from assms have m: "1 \<le> Month t" "Month t \<le> 12" and d: "Day t \<le> daysIn (Month t) (Year t)"
    by (simp_all add: valid_time_def)
  then have m0: "(Month t + 0 - 1) div 12 = 0" "(Month t + 0 - 1) mod 12 + 1 = Month t"
    by simp_all
  show ?thesis
  proof (cases "Day t + 2 \<le> daysIn (Month t) (Year t)")
    case True
    then have "norm_day (Year t) (Month t) (Day t + 2) = (Year t, Month t, Day t + 2)"
      by (rule norm_day_within)
    with True m0 show ?thesis
      by (simp add: AddDate_def del: norm_day.simps)
  next
    case False
    then have "norm_day (Year t) (Month t) (Day t + 2) =
        (if 12 \<le> Month t then (Suc (Year t), 1, Day t + 2 - daysIn (Month t) (Year t))
         else (Year t, Suc (Month t), Day t + 2 - daysIn (Month t) (Year t)))"
      using d by (intro norm_day_next) simp_all
    with False m m0 show ?thesis
      by (simp add: AddDate_def del: norm_day.simps)
  qed
qed


lemma AddDate_later:
  assumes "valid_time t"
  shows "before t (AddDate t 0 0 2)"
  using assms by (simp add: AddDate_two_days before_def valid_time_def)

lemma AddDate_valid:
  assumes "valid_time t"
  shows "valid_time (AddDate t 0 0 2)"
proof -
  have big: "2 \<le> daysIn m y" for m y
    using daysIn_bounds [of m y] by linarith
  from assms big [of 1 "Suc (Year t)"] big [of "Suc (Month t)" "Year t"] show ?thesis
    by (auto simp add: AddDate_two_days valid_time_def)
qed

lemma valid_fixed_width: "valid_time t \<Longrightarrow> Year t < 10000 \<Longrightarrow> fixed_width t"
  using daysIn_bounds [of "Month t" "Year t"] by (simp add: valid_time_def fixed_width_def)

lemma before_irrefl: "\<not> before t t"
  by (simp add: before_def)

lemma before_asym: "before a b \<Longrightarrow> \<not> before b a"
  by (auto simp: before_def)

lemma AddDate_year_mono: "valid_time t \<Longrightarrow> Year t \<le> Year (AddDate t 0 0 2)"
  by (simp add: AddDate_two_days)

lemma stamp_result:
  "Annotations s = Some m \<Longrightarrow>
     updateServiceAnnotation now iprange s =
       Inr (Format (AddDate now 0 0 2),
            s\<lparr>Annotations := Some (m(annotationKey iprange \<mapsto> Format (AddDate now 0 0 2)))\<rparr>)"
  by (simp add: updateServiceAnnotation_def Let_def)

lemma stamp_not_expired:
  assumes "valid_time now" "Year (AddDate now 0 0 2) < 10000"
  shows "\<not> IsExpired (Format (AddDate now 0 0 2)) (Format now)"
proof -
  have w: "fixed_width (AddDate now 0 0 2)"
    using assms by (simp add: valid_fixed_width AddDate_valid)
  have "Year now < 10000"
    using assms AddDate_year_mono [of now] by linarith
  with assms(1) have "fixed_width now"
    by (simp add: valid_fixed_width)
  with w have "IsExpired (Format (AddDate now 0 0 2)) (Format now) = before (AddDate now 0 0 2) now"
    by (simp add: IsExpired_def Format_less)
  with assms(1) show ?thesis
    using before_asym [OF AddDate_later] by blast
qed


lemma example_clock_valid: "valid_time example_clock"
  by (simp add: example_clock_def valid_time_def daysIn_def isLeap_def)

lemma example_deadline:
  "AddDate example_clock 0 0 2 = \<lparr>Year = 2024, Month = 3, Day = 1, Hour = 9, Minute = 5, Second = 0\<rparr>"
  by (simp add: AddDate_two_days [OF example_clock_valid])
     (simp add: example_clock_def daysIn_def isLeap_def)

lemma example_deadline_string: "Format (AddDate example_clock 0 0 2) = ''2024-03-01 09:05:00''"
  unfolding example_deadline by code_simp


text \<open>
  Claim C6. The expiry test holds exactly when the deadline string comes strictly
  before the current-time string in bytewise lexicographic order. For two readings
  formatted with fixed-width fields this is chronological order: the test holds for a
  deadline in the past and fails for one in the future; and the deadline that stamping
  returns is not expired at the instant of stamping.
\<close>

theorem expiry_test_follows_clock_order:
  "(IsExpired v now \<longleftrightarrow> (v, now) \<in> lexord {(a, b). (of_char a :: nat) < of_char b}) \<and>
   (fixed_width d \<and> fixed_width n \<longrightarrow>
      (IsExpired (Format d) (Format n) \<longleftrightarrow> before d n) \<and>
      (before n d \<longrightarrow> \<not> IsExpired (Format d) (Format n))) \<and>
   (valid_time t \<and> Year (AddDate t 0 0 2) < 10000 \<and> Annotations s = Some m \<longrightarrow>
      (\<exists>deadline s'. updateServiceAnnotation t iprange s = Inr (deadline, s') \<and>
         \<not> IsExpired deadline (Format t)))"
proof (intro conjI impI)
  have "{(a::char, b). a < b} = {(a, b). (of_char a :: nat) < of_char b}"
    by (simp add: less_char_def)
  then show "IsExpired v now \<longleftrightarrow> (v, now) \<in> lexord {(a, b). (of_char a :: nat) < of_char b}"
    by (simp add: IsExpired_def list_less_def)
next
  assume "fixed_width d \<and> fixed_width n"
  then show "IsExpired (Format d) (Format n) \<longleftrightarrow> before d n"
    by (simp add: IsExpired_def Format_less)
next
  assume "fixed_width d \<and> fixed_width n" "before n d"
  then show "\<not> IsExpired (Format d) (Format n)"
    using before_asym [of n d] by (simp add: IsExpired_def Format_less)
next
  assume "valid_time t \<and> Year (AddDate t 0 0 2) < 10000 \<and> Annotations s = Some m"
  then show "\<exists>deadline s'. updateServiceAnnotation t iprange s = Inr (deadline, s') \<and>
         \<not> IsExpired deadline (Format t)"
    using stamp_result [of s m t iprange] stamp_not_expired [of t] by blast
qed

text \<open>The theorem at two readings two days apart and at a fresh stamp.\<close>

theorem expiry_test_follows_clock_order_witness:
  "fixed_width example_clock \<and> fixed_width example_later \<and>
   before example_clock example_later \<and>
   IsExpired (Format example_clock) (Format example_later) \<and>
   \<not> IsExpired (Format example_later) (Format example_clock) \<and>
   valid_time example_clock \<and> Year (AddDate example_clock 0 0 2) < 10000 \<and>
   Annotations example_service = Some [mgmtAnnotation \<mapsto> ''true''] \<and>
   (\<exists>deadline s'. updateServiceAnnotation example_clock ''10.0.0.1/32'' example_service
       = Inr (deadline, s') \<and> \<not> IsExpired deadline (Format example_clock))"
proof -
  have w: "fixed_width example_clock" "fixed_width example_later"
    by (simp_all add: fixed_width_def example_clock_def example_later_def)
  have b: "before example_clock example_later"
    by (simp add: before_def example_clock_def example_later_def)
  have a: "Annotations example_service = Some [mgmtAnnotation \<mapsto> ''true'']"
    by (simp add: example_service_def)
  have y: "Year (AddDate example_clock 0 0 2) < 10000"
    by (simp add: example_deadline)
  show ?thesis
    using expiry_test_follows_clock_order
        [of "Format example_clock" "Format example_later" example_clock example_later
          example_clock example_service "[mgmtAnnotation \<mapsto> ''true'']" "''10.0.0.1/32''"]
      expiry_test_follows_clock_order
        [of "Format example_clock" "Format example_later" example_later example_clock
          example_clock example_service "[mgmtAnnotation \<mapsto> ''true'']" "''10.0.0.1/32''"]
      w b a y example_clock_valid
    by blast
qed

subsection \<open>Properties of the two mutations and of the sweep\<close>

lemma annotationKey_inj: "annotationKey a = annotationKey b \<longleftrightarrow> a = b"
  by (simp add: annotationKey_def)

lemma annotationKey_not_mgmt: "annotationKey r \<noteq> mgmtAnnotation"
  by (simp add: annotationKey_def annotationKeyPrefix_def mgmtAnnotation_def)

lemma HasPrefix_append: "HasPrefix (p @ r) p"
  by (simp add: HasPrefix_def)

lemma TrimPrefix_append: "TrimPrefix (p @ r) p = r"
  by (simp add: TrimPrefix_def HasPrefix_def)

lemma HasPrefix_annotationKey: "HasPrefix (annotationKey r) annotationKeyPrefix"
  by (simp add: annotationKey_def HasPrefix_append)

lemma TrimPrefix_annotationKey:
  "TrimPrefix (annotationKey r) (annotationKeyPrefix @ ''.'') = r"
  using TrimPrefix_append [of "annotationKeyPrefix @ ''.''" r] by (simp add: annotationKey_def)

lemma mgmt_not_prefixed: "\<not> HasPrefix mgmtAnnotation annotationKeyPrefix"
  by (simp add: HasPrefix_def mgmtAnnotation_def annotationKeyPrefix_def)

lemma lookup_removeServiceAnnotation:
  "lookup (removeServiceAnnotation ip s) k = (if k = annotationKey ip then None else lookup s k)"
  by (simp add: removeServiceAnnotation_def lookup_def split: option.splits)

lemma ranges_removeServiceAnnotation:
  "LoadBalancerSourceRanges (removeServiceAnnotation ip s) = LoadBalancerSourceRanges s"
  by (simp add: removeServiceAnnotation_def split: option.splits)

lemma lookup_applySourceRangesToSpec: "lookup (applySourceRangesToSpec r s) k = lookup s k"
  by (simp add: applySourceRangesToSpec_def lookup_def)

lemma ranges_applySourceRangesToSpec:
  "LoadBalancerSourceRanges (applySourceRangesToSpec r s) = r"
  by (simp add: applySourceRangesToSpec_def)

lemma RemoveIp_rejected:
  "reconcileSourceRanges (LoadBalancerSourceRanges s) ip ''remove'' = Inl err \<Longrightarrow>
     RemoveIpFromService ip s c w = (Some err, s, w)"
  by (simp add: RemoveIpFromService_def)

lemma RemoveIp_applied:
  "reconcileSourceRanges (LoadBalancerSourceRanges s) ip ''remove'' = Inr rs \<Longrightarrow>
     RemoveIpFromService ip s c w =
       (ServicesUpdate c (Namespace s) (removeServiceAnnotation ip (applySourceRangesToSpec rs s)),
        removeServiceAnnotation ip (applySourceRangesToSpec rs s),
        w @ [UpdateCall (Namespace s) (removeServiceAnnotation ip (applySourceRangesToSpec rs s))])"
  by (simp add: RemoveIpFromService_def Let_def split: option.splits)

lemma RemoveIp_cases:
  assumes "RemoveIpFromService ip s c w = (r, s', w')"
  obtains (rejected) err where
      "reconcileSourceRanges (LoadBalancerSourceRanges s) ip ''remove'' = Inl err"
      "r = Some err" "s' = s" "w' = w"
    | (applied) rs where
      "reconcileSourceRanges (LoadBalancerSourceRanges s) ip ''remove'' = Inr rs"
      "s' = removeServiceAnnotation ip (applySourceRangesToSpec rs s)"
      "r = ServicesUpdate c (Namespace s) s'"
      "w' = w @ [UpdateCall (Namespace s) s']"
proof (cases "reconcileSourceRanges (LoadBalancerSourceRanges s) ip ''remove''")
  case (Inl err)
  then have "RemoveIpFromService ip s c w = (Some err, s, w)"
    by (rule RemoveIp_rejected)
  with assms have "r = Some err" "s' = s" "w' = w"
    by simp_all
  with Inl show ?thesis
    by (rule rejected)
next
  case (Inr rs)
  define s2 where "s2 = removeServiceAnnotation ip (applySourceRangesToSpec rs s)"
  from Inr have "RemoveIpFromService ip s c w =
      (ServicesUpdate c (Namespace s) s2, s2, w @ [UpdateCall (Namespace s) s2])"
    unfolding s2_def by (rule RemoveIp_applied)
  with assms have "(r, s', w') =
      (ServicesUpdate c (Namespace s) s2, s2, w @ [UpdateCall (Namespace s) s2])"
    by (rule trans [OF sym])
  then have "s' = s2" "r = ServicesUpdate c (Namespace s) s2"
      "w' = w @ [UpdateCall (Namespace s) s2]"
    by blast+
  then have "s' = removeServiceAnnotation ip (applySourceRangesToSpec rs s)"
      "r = ServicesUpdate c (Namespace s) s'" "w' = w @ [UpdateCall (Namespace s) s']"
    by (simp_all add: s2_def)
  with Inr show ?thesis
    by (rule applied)
qed

lemma RemoveIp_lookup:
  assumes "RemoveIpFromService ip s c w = (r, s', w')"
  shows "lookup s' k = lookup s k \<or> (k = annotationKey ip \<and> lookup s' k = None)"
  using assms
  by (cases rule: RemoveIp_cases)
     (auto simp: lookup_removeServiceAnnotation lookup_applySourceRangesToSpec)

lemma RemoveIp_consistent:
  assumes "RemoveIpFromService ip s c w = (r, s', w')" "rules_consistent s"
  shows "rules_consistent s'"
  using assms(1)
proof (cases rule: RemoveIp_cases)
  case (rejected err)
  with assms(2) show ?thesis by simp
next
  case (applied rs)
  show ?thesis
    unfolding rules_consistent_def
  proof (intro allI impI)
    fix q
    assume present: "lookup s' (annotationKey q) \<noteq> None"
    with applied(2) have "q \<noteq> ip" "lookup s (annotationKey q) \<noteq> None"
      by (auto simp: lookup_removeServiceAnnotation lookup_applySourceRangesToSpec
          annotationKey_inj split: if_splits)
    with assms(2) have "q \<in> set (LoadBalancerSourceRanges s)"
      by (simp add: rules_consistent_def)
    with applied(1) have "q \<in> set rs"
      using \<open>q \<noteq> ip\<close> by (rule reconcile_remove_keeps)
    with applied(2) show "q \<in> set (LoadBalancerSourceRanges s')"
      by (simp add: ranges_removeServiceAnnotation ranges_applySourceRangesToSpec)
  qed
qed

lemma update_calls_append: "update_calls (v @ w) = update_calls v @ update_calls w"
  by (induction v rule: update_calls.induct) simp_all

lemma printed_append: "printed (v @ w) = printed v @ printed w"
  by (induction v rule: printed.induct) simp_all

lemma UpdateServiceSpec_success:
  assumes "UpdateServiceSpec now ip ns s c w = (Inr deadline, s', w')"
  shows "ip \<notin> set (LoadBalancerSourceRanges s) \<and>
         LoadBalancerSourceRanges s' = LoadBalancerSourceRanges s @ [ip] \<and>
         (\<forall>k. lookup s' k = (if k = annotationKey ip then Some deadline else lookup s k)) \<and>
         deadline = Format (AddDate now 0 0 2) \<and>
         ServicesUpdate c ns s' = None \<and> w' = w @ [UpdateCall ns s']"
proof (cases "ip \<in> set (LoadBalancerSourceRanges s)")
  case True
  with assms show ?thesis
    by (simp add: UpdateServiceSpec_def reconcile_add)
next
  case False
  show ?thesis
  proof (cases "Annotations s")
    case None
    with False assms show ?thesis
      by (simp add: UpdateServiceSpec_def reconcile_add updateServiceAnnotation_def
          applySourceRangesToSpec_def)
  next
    case (Some m)
    with False assms show ?thesis
      by (auto simp: UpdateServiceSpec_def reconcile_add updateServiceAnnotation_def
          applySourceRangesToSpec_def lookup_def Let_def split: option.splits)
  qed
qed

lemma UpdateServiceSpec_consistent:
  assumes "UpdateServiceSpec now ip ns s c w = (Inr deadline, s', w')" "rules_consistent s"
  shows "rules_consistent s'"
proof -
  note f = UpdateServiceSpec_success [OF assms(1)]
  show ?thesis
    unfolding rules_consistent_def
  proof (intro allI impI)
    fix q
    assume "lookup s' (annotationKey q) \<noteq> None"
    with f have "q = ip \<or> lookup s (annotationKey q) \<noteq> None"
      by (auto simp: annotationKey_inj split: if_splits)
    with assms(2) have "q = ip \<or> q \<in> set (LoadBalancerSourceRanges s)"
      by (auto simp: rules_consistent_def)
    with f show "q \<in> set (LoadBalancerSourceRanges s')"
      by auto
  qed
qed

lemma iterate_keys_rule:
  assumes "iterate_keys now ks s c w = (r, s', w')"
    and "P s w"
    and step: "\<And>ip s w r s1 w1 line. P s w \<Longrightarrow>
            RemoveIpFromService ip s c (w @ [Printed line]) = (r, s1, w1) \<Longrightarrow> P s1 w1"
    and print: "\<And>s w line. P s w \<Longrightarrow> P s (w @ [Printed line])"
  shows "P s' w'"
  using assms(1,2)
proof (induction ks arbitrary: s w)
  case Nil
  then show ?case by simp
next
  case (Cons a as)
  show ?case
  proof (cases "lookup s a")
    case None
    with Cons.prems have "iterate_keys now as s c w = (r, s', w')"
      by simp
    then show ?thesis
      using Cons.prems(2) by (rule Cons.IH)
  next
    case (Some v)
    show ?thesis
    proof (cases "HasPrefix a annotationKeyPrefix")
      case False
      with Some Cons.prems have "iterate_keys now as s c w = (r, s', w')"
        by simp
      then show ?thesis
        using Cons.prems(2) by (rule Cons.IH)
    next
      case True
      show ?thesis
      proof (cases "IsExpired v now")
        case False
        with True Some Cons.prems have "iterate_keys now as s c
            (w @ [Printed (''Rule for '' @ a @ '' has not expired yet'' @ newline)]) = (r, s', w')"
          by simp
        then show ?thesis
          using print [OF Cons.prems(2)] by (rule Cons.IH)
      next
        case expired: True
        obtain r1 s1 w1 where rem: "RemoveIpFromService (TrimPrefix a (annotationKeyPrefix @ ''.'')) s c
            (w @ [Printed (''Time to remove this rule: '' @ a @ newline)]) = (r1, s1, w1)"
          by (metis prod_cases3)
        have P1: "P s1 w1"
          using Cons.prems(2) rem by (rule step)
        show ?thesis
        proof (cases r1)
          case None
          with rem expired True Some Cons.prems have "iterate_keys now as s1 c w1 = (r, s', w')"
            by (simp add: Let_def)
          then show ?thesis
            using P1 by (rule Cons.IH)
        next
          case (Some err)
          with rem expired True \<open>lookup s a = Some v\<close> Cons.prems have "s' = s1" "w' = w1"
            by (auto simp: Let_def)
          with P1 show ?thesis by simp
        qed
      qed
    qed
  qed
qed

lemma IterateAnnotations_rule:
  assumes "IterateAnnotations clock ks s c w = (r, s', w')"
    and "P s w"
    and step: "\<And>ip s w r s1 w1 line. P s w \<Longrightarrow>
            RemoveIpFromService ip s c (w @ [Printed line]) = (r, s1, w1) \<Longrightarrow> P s1 w1"
    and print: "\<And>s w line. P s w \<Longrightarrow> P s (w @ [Printed line])"
  shows "P s' w'"
proof -
  obtain r0 s0 w0 where it: "iterate_keys (Format clock) ks s c w = (r0, s0, w0)"
    by (metis prod_cases3)
  then have P0: "P s0 w0"
    using assms(2) step print by (rule iterate_keys_rule)
  show ?thesis
  proof (cases r0)
    case None
    with it assms(1) have "s' = s0"
        "w' = w0 @ [Printed (''Finished checking rules for service '' @ Name s0 @ newline)]"
      by (auto simp: IterateAnnotations_def Let_def)
    with print [OF P0] show ?thesis by simp
  next
    case (Some err)
    with it assms(1) have "s' = s0" "w' = w0"
      by (auto simp: IterateAnnotations_def Let_def)
    with P0 show ?thesis by simp
  qed
qed

lemma IsAutoManaged_lookup: "IsAutoManaged s \<longleftrightarrow> lookup s mgmtAnnotation \<noteq> None"
  by (simp add: IsAutoManaged_def split: option.splits)

lemma RemoveIp_marker:
  assumes "RemoveIpFromService ip s c w = (r, s', w')"
  shows "lookup s' mgmtAnnotation = lookup s mgmtAnnotation"
  using RemoveIp_lookup [OF assms, of mgmtAnnotation] annotationKey_not_mgmt [of ip] by auto

lemma RemoveIp_new_events:
  assumes "RemoveIpFromService ip s c w = (r, s', w')"
  shows "w' = w \<or> w' = w @ [UpdateCall (Namespace s) s']"
  using assms by (cases rule: RemoveIp_cases) auto

lemma sweep_events_rule:
  assumes run: "IterateAnnotations clock ks s c w = (r, s', w')"
    and "Q s"
    and keep: "\<And>ip s w r s1 w1. Q s \<Longrightarrow> RemoveIpFromService ip s c w = (r, s1, w1) \<Longrightarrow> Q s1"
  shows "Q s' \<and> (\<exists>e. w' = w @ e \<and> (\<forall>x\<in>set (update_calls e). Q (snd x)))"
proof -
  let ?P = "\<lambda>s1 w1. Q s1 \<and> (\<exists>e. w1 = w @ e \<and> (\<forall>x\<in>set (update_calls e). Q (snd x)))"
  have start: "?P s w"
    using \<open>Q s\<close> by simp
  have step: "?P s2 w2"
    if "?P s1 w1" and "RemoveIpFromService ip s1 c (w1 @ [Printed line]) = (r1, s2, w2)"
    for ip s1 w1 r1 s2 w2 line
  proof -
    from that(1) obtain e where e: "Q s1" "w1 = w @ e" "\<forall>x\<in>set (update_calls e). Q (snd x)"
      by blast
    have q: "Q s2"
      using e(1) that(2) by (rule keep)
    from RemoveIp_new_events [OF that(2)]
    have "w2 = w @ (e @ [Printed line]) \<or>
        w2 = w @ (e @ [Printed line, UpdateCall (Namespace s1) s2])"
      using e(2) by auto
    then show ?thesis
    proof
      assume "w2 = w @ (e @ [Printed line])"
      with q e(3) show ?thesis
        by (auto simp: update_calls_append)
    next
      assume w2: "w2 = w @ (e @ [Printed line, UpdateCall (Namespace s1) s2])"
      have "\<forall>x\<in>set (update_calls (e @ [Printed line, UpdateCall (Namespace s1) s2])). Q (snd x)"
        using q e(3) by (auto simp: update_calls_append)
      with q w2 show ?thesis by blast
    qed
  qed
  have print: "?P s1 (w1 @ [Printed line])" if "?P s1 w1" for s1 w1 line
  proof -
    from that obtain e where e: "Q s1" "w1 = w @ e" "\<forall>x\<in>set (update_calls e). Q (snd x)"
      by blast
    then have "w1 @ [Printed line] = w @ (e @ [Printed line])"
        "\<forall>x\<in>set (update_calls (e @ [Printed line])). Q (snd x)"
      by (auto simp: update_calls_append)
    with e(1) show ?thesis by blast
  qed
  show ?thesis
    using run start step print by (rule IterateAnnotations_rule [where P = ?P])
qed

lemma sweep_items_managed:
  "\<exists>e. sweep_items t items w = w @ e \<and> (\<forall>x\<in>set (update_calls e). IsAutoManaged (snd x))"
proof (induction items arbitrary: w)
  case Nil
  then show ?case by simp
next
  case (Cons s ss)
  show ?case
  proof (cases "IsAutoManaged s")
    case False
    with Cons.IH [of w] show ?thesis by simp
  next
    case True
    obtain r s' w' where run:
        "IterateAnnotations (clock_at t s) (keys_of t s) s (client t) w = (r, s', w')"
      by (metis prod_cases3)
    have "IsAutoManaged s' \<and> (\<exists>e. w' = w @ e \<and> (\<forall>x\<in>set (update_calls e). IsAutoManaged (snd x)))"
      using run True
    proof (rule sweep_events_rule)
      fix ip s w r s1 w1
      assume "IsAutoManaged s" "RemoveIpFromService ip s (client t) w = (r, s1, w1)"
      then show "IsAutoManaged s1"
        using RemoveIp_marker by (simp add: IsAutoManaged_lookup)
    qed
    then obtain e where e: "w' = w @ e" "\<forall>x\<in>set (update_calls e). IsAutoManaged (snd x)"
      by blast
    define w1 where "w1 = (case r of None \<Rightarrow> w' | Some err \<Rightarrow> w' @ [Printed (Error err @ newline)])"
    have next_log: "sweep_items t (s # ss) w = sweep_items t ss w1"
      using True run by (simp add: w1_def split: option.splits)
    obtain p where p: "w1 = w' @ p" "update_calls p = []"
      by (cases r) (simp_all add: w1_def)
    from Cons.IH [of w1] obtain e1 where
      e1: "sweep_items t ss w1 = w1 @ e1" "\<forall>x\<in>set (update_calls e1). IsAutoManaged (snd x)"
      by blast
    have "sweep_items t (s # ss) w = w @ (e @ p @ e1)"
      using next_log e1(1) p(1) e(1) by simp
    moreover have "\<forall>x\<in>set (update_calls (e @ p @ e1)). IsAutoManaged (snd x)"
      using e(2) e1(2) p(2) by (auto simp: update_calls_append)
    ultimately show ?thesis by blast
  qed
qed

text \<open>
  Claim C10. The management marker does not begin with the access-rule prefix. Whatever
  a sweep of a service returns, the entry under the marker is as it was before, so an
  opted-in service stays opted in, and every update the sweep submits carries the same
  marker entry; every update submitted during a tick is of an opted-in service.
\<close>

theorem sweep_keeps_management_marker:
  "\<not> HasPrefix mgmtAnnotation annotationKeyPrefix \<and>
   (IterateAnnotations clock keys s c w = (r, s', w') \<longrightarrow>
      lookup s' mgmtAnnotation = lookup s mgmtAnnotation \<and>
      (IsAutoManaged s \<longrightarrow> IsAutoManaged s') \<and>
      (\<exists>e. w' = w @ e \<and>
         (\<forall>x\<in>set (update_calls e). lookup (snd x) mgmtAnnotation = lookup s mgmtAnnotation))) \<and>
   (sweep_tick t w = Inr v \<longrightarrow>
      (\<exists>e. v = w @ e \<and> (\<forall>x\<in>set (update_calls e). IsAutoManaged (snd x))))"
proof (intro conjI impI)
  show "\<not> HasPrefix mgmtAnnotation annotationKeyPrefix"
    by (rule mgmt_not_prefixed)
next
  assume run: "IterateAnnotations clock keys s c w = (r, s', w')"
  let ?Q = "\<lambda>u. lookup u mgmtAnnotation = lookup s mgmtAnnotation"
  have all: "?Q s' \<and> (\<exists>e. w' = w @ e \<and> (\<forall>x\<in>set (update_calls e). ?Q (snd x)))"
    using run
  proof (rule sweep_events_rule [where Q = ?Q])
    show "?Q s" by simp
  next
    fix ip u w0 r0 u1 w1
    assume "?Q u" "RemoveIpFromService ip u c w0 = (r0, u1, w1)"
    then show "?Q u1"
      using RemoveIp_marker by simp
  qed
  then show "lookup s' mgmtAnnotation = lookup s mgmtAnnotation"
    by blast
  then show "IsAutoManaged s'" if "IsAutoManaged s"
    using that by (simp add: IsAutoManaged_lookup)
  from all show "\<exists>e. w' = w @ e \<and>
         (\<forall>x\<in>set (update_calls e). lookup (snd x) mgmtAnnotation = lookup s mgmtAnnotation)"
    by blast
next
  assume "sweep_tick t w = Inr v"
  then obtain items where "v = sweep_items t items w"
    by (auto simp: sweep_tick_def split: option.splits)
  then show "\<exists>e. v = w @ e \<and> (\<forall>x\<in>set (update_calls e). IsAutoManaged (snd x))"
    using sweep_items_managed [of t items w] by simp
qed

lemma example_clock_string: "Format example_clock = ''2024-02-28 09:05:00''"
  by code_simp

lemma granted_lookup:
  "lookup granted_service mgmtAnnotation = Some ''true''"
  "lookup granted_service (annotationKey ''10.0.0.1/32'') = Some ''2020-01-01 00:00:00''"
  using annotationKey_not_mgmt [of "''10.0.0.1/32''"]
  by (auto simp: lookup_def granted_service_def)

lemma granted_consistent: "rules_consistent granted_service"
  unfolding rules_consistent_def
proof (intro allI impI)
  fix q
  assume "lookup granted_service (annotationKey q) \<noteq> None"
  then have "annotationKey q = annotationKey ''10.0.0.1/32''"
    using annotationKey_not_mgmt [of q]
    by (auto simp: lookup_def granted_service_def split: if_splits)
  then have "q = ''10.0.0.1/32''"
    by (simp only: annotationKey_inj)
  then show "q \<in> set (LoadBalancerSourceRanges granted_service)"
    by (simp add: granted_service_def)
qed

lemma granted_remove:
  "reconcileSourceRanges (LoadBalancerSourceRanges granted_service) ''10.0.0.1/32'' ''remove'' = Inr []"
  by (simp add: granted_service_def reconcileSourceRanges_def)

lemma granted_RemoveIp:
  "RemoveIpFromService ''10.0.0.1/32'' granted_service accepting_client w =
     (None, swept_service, w @ [UpdateCall ''default'' swept_service])"
  using RemoveIp_applied [OF granted_remove, of accepting_client w]
  by (simp add: swept_service_def accepting_client_def granted_service_def)

lemma granted_sweep:
  "IterateAnnotations example_clock [mgmtAnnotation, annotationKey ''10.0.0.1/32'']
      granted_service accepting_client [] =
     (None, swept_service,
      [Printed (''Time to remove this rule: '' @ annotationKey ''10.0.0.1/32'' @ newline),
       UpdateCall ''default'' swept_service,
       Printed (''Finished checking rules for service '' @ Name swept_service @ newline)])"
  by (simp add: IterateAnnotations_def example_clock_string granted_lookup mgmt_not_prefixed
      HasPrefix_annotationKey TrimPrefix_annotationKey IsExpired_def granted_RemoveIp)

text \<open>The theorem at a service with the marker and one expired rule.\<close>

theorem sweep_keeps_management_marker_witness:
  "IsAutoManaged granted_service \<and>
   (\<exists>s' w'. IterateAnnotations example_clock [mgmtAnnotation, annotationKey ''10.0.0.1/32'']
               granted_service accepting_client [] = (None, s', w') \<and>
            w' \<noteq> [] \<and> IsAutoManaged s' \<and> lookup s' mgmtAnnotation = Some ''true'')"
proof -
  have m: "IsAutoManaged granted_service"
    by (simp add: IsAutoManaged_lookup granted_lookup)
  from sweep_keeps_management_marker
    [where clock = example_clock and keys = "[mgmtAnnotation, annotationKey ''10.0.0.1/32'']"
      and s = granted_service and c = accepting_client and w = "[]" and r = None
      and s' = swept_service] granted_sweep m
  have "IsAutoManaged swept_service" "lookup swept_service mgmtAnnotation = Some ''true''"
    by (simp_all add: granted_lookup)
  with m granted_sweep show ?thesis
    by simp
qed

text \<open>
  Claim C4. Starting from a service in which every access-rule annotation has its range
  in the allow-list, a successful grant and a successful retraction each leave a service
  with the same property and submit exactly that service; a whole sweep of the service
  keeps the property in memory and in every update it submits, whatever it returns.
\<close>

theorem own_operations_keep_rules_in_allow_list:
  "rules_consistent s \<Longrightarrow>
     (UpdateServiceSpec now ip ns s c w = (Inr deadline, s1, w1) \<longrightarrow>
        rules_consistent s1 \<and> w1 = w @ [UpdateCall ns s1]) \<and>
     (RemoveIpFromService ip s c w = (None, s2, w2) \<longrightarrow>
        rules_consistent s2 \<and> w2 = w @ [UpdateCall (Namespace s) s2]) \<and>
     (IterateAnnotations clock keys s c w = (r, s3, w3) \<longrightarrow>
        rules_consistent s3 \<and>
        (\<exists>e. w3 = w @ e \<and> (\<forall>x\<in>set (update_calls e). rules_consistent (snd x))))"
proof (intro conjI impI)
  assume inv: "rules_consistent s"
  {
    assume run: "UpdateServiceSpec now ip ns s c w = (Inr deadline, s1, w1)"
    then show "rules_consistent s1"
      using inv by (rule UpdateServiceSpec_consistent)
    from UpdateServiceSpec_success [OF run] show "w1 = w @ [UpdateCall ns s1]"
      by blast
  next
    assume run: "RemoveIpFromService ip s c w = (None, s2, w2)"
    then show "rules_consistent s2"
      using inv by (rule RemoveIp_consistent)
    from run show "w2 = w @ [UpdateCall (Namespace s) s2]"
      by (cases rule: RemoveIp_cases) auto
  next
    assume run: "IterateAnnotations clock keys s c w = (r, s3, w3)"
    have all: "rules_consistent s3 \<and>
        (\<exists>e. w3 = w @ e \<and> (\<forall>x\<in>set (update_calls e). rules_consistent (snd x)))"
      using run inv
    proof (rule sweep_events_rule)
      fix ip u w0 r0 u1 w1
      assume "rules_consistent u" "RemoveIpFromService ip u c w0 = (r0, u1, w1)"
      then show "rules_consistent u1"
        using RemoveIp_consistent by blast
    qed
    then show "rules_consistent s3"
      by blast
    from all show "\<exists>e. w3 = w @ e \<and> (\<forall>x\<in>set (update_calls e). rules_consistent (snd x))"
      by blast
  }
qed

lemma granted_update:
  "\<exists>s1. UpdateServiceSpec example_clock ''10.0.0.2/32'' ''default'' granted_service
        accepting_client [] = (Inr ''2024-03-01 09:05:00'', s1, [UpdateCall ''default'' s1])"
  by (simp add: UpdateServiceSpec_def reconcile_add granted_service_def
      updateServiceAnnotation_def applySourceRangesToSpec_def accepting_client_def
      example_deadline_string Let_def)

text \<open>The theorem at a service with one granted range: a grant, a retraction, a sweep.\<close>

theorem own_operations_keep_rules_in_allow_list_witness:
  "rules_consistent granted_service \<and>
   (\<exists>s1 w1. UpdateServiceSpec example_clock ''10.0.0.2/32'' ''default'' granted_service
        accepting_client [] = (Inr ''2024-03-01 09:05:00'', s1, w1) \<and> rules_consistent s1) \<and>
   (\<exists>s2 w2. RemoveIpFromService ''10.0.0.1/32'' granted_service accepting_client [] =
        (None, s2, w2) \<and> rules_consistent s2) \<and>
   (\<exists>s3 w3. IterateAnnotations example_clock [mgmtAnnotation, annotationKey ''10.0.0.1/32'']
        granted_service accepting_client [] = (None, s3, w3) \<and> rules_consistent s3)"
proof -
  note t = own_operations_keep_rules_in_allow_list [OF granted_consistent]
  from granted_update obtain s1 where
    u: "UpdateServiceSpec example_clock ''10.0.0.2/32'' ''default'' granted_service
        accepting_client [] = (Inr ''2024-03-01 09:05:00'', s1, [UpdateCall ''default'' s1])"
    by blast
  with t have "rules_consistent s1"
    by blast
  moreover from t granted_RemoveIp [of "[]"] have "rules_consistent swept_service"
    by blast
  ultimately show ?thesis
    using granted_consistent u granted_RemoveIp [of "[]"] granted_sweep by blast
qed

subsection \<open>A sweep over one expired rule\<close>

lemma iterate_keys_quiet:
  assumes "\<And>k v. lookup s k = Some v \<Longrightarrow> HasPrefix k annotationKeyPrefix \<Longrightarrow> \<not> IsExpired v now"
  shows "\<exists>e. iterate_keys now ks s c w = (None, s, w @ e) \<and> update_calls e = []"
proof (induction ks arbitrary: w)
  case Nil
  then show ?case by simp
next
  case (Cons k ks)
  show ?case
  proof (cases "lookup s k")
    case None
    with Cons.IH [of w] show ?thesis by simp
  next
    case (Some v)
    show ?thesis
    proof (cases "HasPrefix k annotationKeyPrefix")
      case False
      with Some Cons.IH [of w] show ?thesis by simp
    next
      case True
      with Some have fresh: "\<not> IsExpired v now"
        by (rule assms)
      let ?line = "Printed (''Rule for '' @ k @ '' has not expired yet'' @ newline)"
      from Cons.IH [of "w @ [?line]"] obtain e where
        e: "iterate_keys now ks s c (w @ [?line]) = (None, s, (w @ [?line]) @ e)"
          "update_calls e = []"
        by blast
      have "iterate_keys now (k # ks) s c w = (None, s, w @ (?line # e))"
        using Some True fresh e(1) by simp
      moreover have "update_calls (?line # e) = []"
        using e(2) by simp
      ultimately show ?thesis by blast
    qed
  qed
qed

lemma iterate_keys_retracts_one:
  assumes expired: "lookup s (annotationKey a) = Some va" "IsExpired va now"
    and others: "\<And>k v. lookup s k = Some v \<Longrightarrow> HasPrefix k annotationKeyPrefix \<Longrightarrow>
                  k \<noteq> annotationKey a \<Longrightarrow> \<not> IsExpired v now"
    and removal: "reconcileSourceRanges (LoadBalancerSourceRanges s) a ''remove'' = Inr rs"
    and accepted: "\<And>u. ServicesUpdate c (Namespace s) u = None"
    and visited: "annotationKey a \<in> set ks"
  defines "s1 \<equiv> removeServiceAnnotation a (applySourceRangesToSpec rs s)"
  shows "\<exists>e. iterate_keys now ks s c w = (None, s1, w @ e) \<and>
              update_calls e = [(Namespace s, s1)]"
  using visited
proof (induction ks arbitrary: w)
  case Nil
  then show ?case by simp
next
  case (Cons k ks)
  have quiet_after: "\<not> IsExpired v now"
    if "lookup s1 k' = Some v" "HasPrefix k' annotationKeyPrefix" for k' v
  proof -
    from that(1) have "k' \<noteq> annotationKey a" "lookup s k' = Some v"
      by (auto simp: s1_def lookup_removeServiceAnnotation lookup_applySourceRangesToSpec
          split: if_splits)
    with that(2) show ?thesis
      using others by blast
  qed
  show ?case
  proof (cases "k = annotationKey a")
    case True
    let ?line = "Printed (''Time to remove this rule: '' @ k @ newline)"
    have rem: "RemoveIpFromService a s c (w @ [?line]) =
        (None, s1, (w @ [?line]) @ [UpdateCall (Namespace s) s1])"
      using RemoveIp_applied [OF removal, of c "w @ [?line]"] accepted
      by (simp add: s1_def)
    from iterate_keys_quiet [of s1 now ks c "(w @ [?line]) @ [UpdateCall (Namespace s) s1]"]
      quiet_after
    obtain e where e: "iterate_keys now ks s1 c ((w @ [?line]) @ [UpdateCall (Namespace s) s1]) =
        (None, s1, ((w @ [?line]) @ [UpdateCall (Namespace s) s1]) @ e)" "update_calls e = []"
      by blast
    have "iterate_keys now (k # ks) s c w =
        (None, s1, w @ (?line # UpdateCall (Namespace s) s1 # e))"
      using True expired rem e(1)
      by (simp add: HasPrefix_annotationKey TrimPrefix_annotationKey)
    moreover have "update_calls (?line # UpdateCall (Namespace s) s1 # e) = [(Namespace s, s1)]"
      using e(2) by simp
    ultimately show ?thesis by blast
  next
    case False
    with Cons.prems have later: "annotationKey a \<in> set ks"
      by simp
    show ?thesis
    proof (cases "lookup s k")
      case None
      with Cons.IH [OF later, of w] show ?thesis by simp
    next
      case (Some v)
      show ?thesis
      proof (cases "HasPrefix k annotationKeyPrefix")
        case no: False
        with Some Cons.IH [OF later, of w] show ?thesis by simp
      next
        case True
        with Some False have fresh: "\<not> IsExpired v now"
          using others by blast
        let ?line = "Printed (''Rule for '' @ k @ '' has not expired yet'' @ newline)"
        from Cons.IH [OF later, of "w @ [?line]"] obtain e where
          e: "iterate_keys now ks s c (w @ [?line]) = (None, s1, (w @ [?line]) @ e)"
            "update_calls e = [(Namespace s, s1)]"
          by blast
        have "iterate_keys now (k # ks) s c w = (None, s1, w @ (?line # e))"
          using Some True fresh e(1) by simp
        moreover have "update_calls (?line # e) = [(Namespace s, s1)]"
          using e(2) by simp
        ultimately show ?thesis by blast
      qed
    qed
  qed
qed

text \<open>
  Claim C8. A service carries an expired rule for range \<open>a\<close>, a rule for range \<open>b\<close>
  that has not expired and no other access-rule annotation; \<open>a\<close> is in the allow-list,
  the client accepts updates, and the run time produces every key of the map, in any
  order. Then the sweep succeeds and submits exactly one update, the final service: its
  allow-list is the old one less one occurrence of \<open>a\<close> (so without \<open>a\<close> when it
  occurred once) and still holds \<open>b\<close>, the annotation of \<open>a\<close> is erased and nothing
  else in the map has changed, so the annotation of \<open>b\<close> has its old value.
\<close>

theorem sweep_retracts_only_the_expired_rule:
  assumes "Annotations s = Some m"
    and "m (annotationKey a) = Some va" and "IsExpired va (Format clock)"
    and "m (annotationKey b) = Some vb" and "\<not> IsExpired vb (Format clock)"
    and "\<forall>k\<in>dom m. HasPrefix k annotationKeyPrefix \<longrightarrow> k = annotationKey a \<or> k = annotationKey b"
    and "a \<in> set (LoadBalancerSourceRanges s)"
    and "\<forall>u. ServicesUpdate c (Namespace s) u = None"
    and "dom m \<subseteq> set keys"
  shows "\<exists>s' e. IterateAnnotations clock keys s c w = (None, s', w @ e) \<and>
           update_calls e = [(Namespace s, s')] \<and>
           mset (LoadBalancerSourceRanges s') + {#a#} = mset (LoadBalancerSourceRanges s) \<and>
           (count (mset (LoadBalancerSourceRanges s)) a = 1 \<longrightarrow>
              a \<notin> set (LoadBalancerSourceRanges s')) \<and>
           (b \<in> set (LoadBalancerSourceRanges s) \<longrightarrow> b \<in> set (LoadBalancerSourceRanges s')) \<and>
           Annotations s' = Some (m(annotationKey a := None)) \<and>
           lookup s' (annotationKey a) = None \<and>
           lookup s' (annotationKey b) = Some vb"
proof -
  from assms(2-5) have ab: "a \<noteq> b"
    by auto
  from assms(7) obtain rs where
    removal: "reconcileSourceRanges (LoadBalancerSourceRanges s) a ''remove'' = Inr rs"
    using reconcile_remove_present by blast
  define s1 where "s1 = removeServiceAnnotation a (applySourceRangesToSpec rs s)"
  have ranges: "LoadBalancerSourceRanges s1 = rs"
    by (simp add: s1_def ranges_removeServiceAnnotation ranges_applySourceRangesToSpec)
  have annots: "Annotations s1 = Some (m(annotationKey a := None))"
    using assms(1) by (simp add: s1_def removeServiceAnnotation_def applySourceRangesToSpec_def)
  have counted: "mset rs + {#a#} = mset (LoadBalancerSourceRanges s)"
    using reconcile_remove_mset [OF removal] by blast
  have gone: "a \<notin> set rs" if "count (mset (LoadBalancerSourceRanges s)) a = 1"
  proof -
    from counted have "count (mset rs) a + 1 = count (mset (LoadBalancerSourceRanges s)) a"
      by (metis count_add_mset add_mset_add_single Suc_eq_plus1)
    with that have "count (mset rs) a = 0"
      by simp
    then show ?thesis
      by (simp add: count_mset_0_iff)
  qed
  have kept: "b \<in> set rs" if "b \<in> set (LoadBalancerSourceRanges s)"
    using removal that ab [symmetric] by (rule reconcile_remove_keeps)
  have expired: "lookup s (annotationKey a) = Some va"
    using assms(1,2) by (simp add: lookup_def)
  have others: "\<not> IsExpired v (Format clock)"
    if "lookup s k = Some v" "HasPrefix k annotationKeyPrefix" "k \<noteq> annotationKey a" for k v
  proof -
    from that(1) assms(1) have "m k = Some v"
      by (simp add: lookup_def)
    with that(2,3) assms(6) have "k = annotationKey b"
      by blast
    with \<open>m k = Some v\<close> assms(4,5) show ?thesis
      by simp
  qed
  have visited: "annotationKey a \<in> set keys"
    using assms(2,9) by blast
  have "\<exists>e. iterate_keys (Format clock) keys s c w =
          (None, removeServiceAnnotation a (applySourceRangesToSpec rs s), w @ e) \<and>
        update_calls e =
          [(Namespace s, removeServiceAnnotation a (applySourceRangesToSpec rs s))]"
  proof (rule iterate_keys_retracts_one)
    show "lookup s (annotationKey a) = Some va"
      by (rule expired)
    show "IsExpired va (Format clock)"
      by (rule assms(3))
    show "\<not> IsExpired v (Format clock)"
      if "lookup s k = Some v" "HasPrefix k annotationKeyPrefix" "k \<noteq> annotationKey a" for k v
      using that by (rule others)
    show "reconcileSourceRanges (LoadBalancerSourceRanges s) a ''remove'' = Inr rs"
      by (rule removal)
    show "ServicesUpdate c (Namespace s) u = None" for u
      using assms(8) by blast
    show "annotationKey a \<in> set keys"
      by (rule visited)
  qed
  then obtain e where e: "iterate_keys (Format clock) keys s c w = (None, s1, w @ e)"
      "update_calls e = [(Namespace s, s1)]"
    unfolding s1_def by blast
  let ?done = "Printed (''Finished checking rules for service '' @ Name s1 @ newline)"
  have "IterateAnnotations clock keys s c w = (None, s1, w @ (e @ [?done]))"
    using e(1) by (simp add: IterateAnnotations_def)
  moreover have "update_calls (e @ [?done]) = [(Namespace s, s1)]"
    using e(2) by (simp add: update_calls_append)
  moreover have "lookup s1 (annotationKey a) = None" "lookup s1 (annotationKey b) = Some vb"
    using annots assms(4) ab by (simp_all add: lookup_def annotationKey_inj)
  ultimately show ?thesis
    using ranges annots counted gone kept by blast
qed

lemma two_rule_annotations:
  "Annotations two_rule_service =
     Some [mgmtAnnotation \<mapsto> ''true'',
           annotationKey ''10.0.0.1/32'' \<mapsto> ''2020-01-01 00:00:00'',
           annotationKey ''10.0.0.2/32'' \<mapsto> ''2030-01-01 00:00:00'']"
  by (simp add: two_rule_service_def)

text \<open>The theorem at a service with a rule from 2020 and a rule until 2030.\<close>

theorem sweep_retracts_only_the_expired_rule_witness:
  "\<exists>s' e. IterateAnnotations example_clock
        [annotationKey ''10.0.0.2/32'', mgmtAnnotation, annotationKey ''10.0.0.1/32'']
        two_rule_service accepting_client [] = (None, s', e) \<and>
      update_calls e = [(''default'', s')] \<and>
      mset (LoadBalancerSourceRanges s') + {#''10.0.0.1/32''#} = mset [''10.0.0.1/32'', ''10.0.0.2/32''] \<and>
      ''10.0.0.1/32'' \<notin> set (LoadBalancerSourceRanges s') \<and>
      ''10.0.0.2/32'' \<in> set (LoadBalancerSourceRanges s') \<and>
      lookup s' (annotationKey ''10.0.0.1/32'') = None \<and>
      lookup s' (annotationKey ''10.0.0.2/32'') = Some ''2030-01-01 00:00:00''"
proof -
  let ?m = "[mgmtAnnotation \<mapsto> ''true'',
             annotationKey ''10.0.0.1/32'' \<mapsto> ''2020-01-01 00:00:00'',
             annotationKey ''10.0.0.2/32'' \<mapsto> ''2030-01-01 00:00:00'']"
  have k: "annotationKey ''10.0.0.1/32'' \<noteq> annotationKey ''10.0.0.2/32''"
    by (simp add: annotationKey_inj)
  have h2: "?m (annotationKey ''10.0.0.1/32'') = Some ''2020-01-01 00:00:00''"
    using k by simp
  have h3: "IsExpired ''2020-01-01 00:00:00'' (Format example_clock)"
    by (simp add: IsExpired_def example_clock_string)
  have h4: "?m (annotationKey ''10.0.0.2/32'') = Some ''2030-01-01 00:00:00''"
    by simp
  have h5: "\<not> IsExpired ''2030-01-01 00:00:00'' (Format example_clock)"
    by (simp add: IsExpired_def example_clock_string)
  have h6: "\<forall>k\<in>dom ?m. HasPrefix k annotationKeyPrefix \<longrightarrow>
      k = annotationKey ''10.0.0.1/32'' \<or> k = annotationKey ''10.0.0.2/32''"
    using mgmt_not_prefixed by auto
  have h7: "''10.0.0.1/32'' \<in> set (LoadBalancerSourceRanges two_rule_service)"
    by (simp add: two_rule_service_def)
  have h8: "\<forall>u. ServicesUpdate accepting_client (Namespace two_rule_service) u = None"
    by (simp add: accepting_client_def)
  have h9: "dom ?m \<subseteq>
      set [annotationKey ''10.0.0.2/32'', mgmtAnnotation, annotationKey ''10.0.0.1/32'']"
    by auto
  have ns: "Namespace two_rule_service = ''default''"
    and rs: "LoadBalancerSourceRanges two_rule_service = [''10.0.0.1/32'', ''10.0.0.2/32'']"
    by (simp_all add: two_rule_service_def)
  have once: "count (mset (LoadBalancerSourceRanges two_rule_service)) ''10.0.0.1/32'' = 1"
    and there: "''10.0.0.2/32'' \<in> set (LoadBalancerSourceRanges two_rule_service)"
    by (simp_all add: rs)
  from sweep_retracts_only_the_expired_rule
    [OF two_rule_annotations h2 h3 h4 h5 h6 h7 h8 h9, of "[]"]
  obtain s' e where
    "IterateAnnotations example_clock
        [annotationKey ''10.0.0.2/32'', mgmtAnnotation, annotationKey ''10.0.0.1/32'']
        two_rule_service accepting_client [] = (None, s', [] @ e)"
    "update_calls e = [(Namespace two_rule_service, s')]"
    "mset (LoadBalancerSourceRanges s') + {#''10.0.0.1/32''#} =
       mset (LoadBalancerSourceRanges two_rule_service)"
    "''10.0.0.1/32'' \<notin> set (LoadBalancerSourceRanges s')"
    "''10.0.0.2/32'' \<in> set (LoadBalancerSourceRanges s')"
    "lookup s' (annotationKey ''10.0.0.1/32'') = None"
    "lookup s' (annotationKey ''10.0.0.2/32'') = Some ''2030-01-01 00:00:00''"
    using once there by blast
  then show ?thesis
    unfolding ns rs append_Nil by blast
qed

subsection \<open>Failures during a tick\<close>

lemma RemoveIp_prefix:
  "RemoveIpFromService ip s c (v @ w) =
     (case RemoveIpFromService ip s c w of (r, s', w') \<Rightarrow> (r, s', v @ w'))"
  by (cases "reconcileSourceRanges (LoadBalancerSourceRanges s) ip ''remove''")
     (simp_all add: RemoveIp_rejected RemoveIp_applied)

lemma iterate_keys_prefix:
  "iterate_keys now ks s c (v @ w) =
     (case iterate_keys now ks s c w of (r, s', w') \<Rightarrow> (r, s', v @ w'))"
proof (induction ks arbitrary: s w)
  case Nil
  then show ?case by simp
next
  case (Cons a as)
  show ?case
  proof (cases "lookup s a")
    case None
    then show ?thesis
      using Cons.IH [of s w] by simp
  next
    case (Some val)
    show ?thesis
    proof (cases "HasPrefix a annotationKeyPrefix")
      case False
      with Some show ?thesis
        using Cons.IH [of s w] by simp
    next
      case True
      show ?thesis
      proof (cases "IsExpired val now")
        case False
        let ?line = "Printed (''Rule for '' @ a @ '' has not expired yet'' @ newline)"
        from False True Some show ?thesis
          using Cons.IH [of s "w @ [?line]"] by simp
      next
        case expired: True
        let ?line = "Printed (''Time to remove this rule: '' @ a @ newline)"
        let ?ip = "TrimPrefix a (annotationKeyPrefix @ ''.'')"
        obtain r1 s1 w1 where rem: "RemoveIpFromService ?ip s c (w @ [?line]) = (r1, s1, w1)"
          by (metis prod_cases3)
        then have rem': "RemoveIpFromService ?ip s c (v @ w @ [?line]) = (r1, s1, v @ w1)"
          using RemoveIp_prefix [of ?ip s c v "w @ [?line]"] by simp
        show ?thesis
        proof (cases r1)
          case None
          with rem rem' expired True Some show ?thesis
            using Cons.IH [of s1 w1] by simp
        next
          case (Some err)
          with rem rem' expired True \<open>lookup s a = Some val\<close> show ?thesis
            by simp
        qed
      qed
    qed
  qed
qed

lemma IterateAnnotations_prefix:
  "IterateAnnotations clock ks s c (v @ w) =
     (case IterateAnnotations clock ks s c w of (r, s', w') \<Rightarrow> (r, s', v @ w'))"
  by (simp add: IterateAnnotations_def iterate_keys_prefix split: prod.splits option.splits)

lemma sweep_items_prefix: "sweep_items t items (v @ w) = v @ sweep_items t items w"
proof (induction items arbitrary: w)
  case Nil
  then show ?case by simp
next
  case (Cons s ss)
  obtain r s' w' where run:
      "IterateAnnotations (clock_at t s) (keys_of t s) s (client t) w = (r, s', w')"
    by (metis prod_cases3)
  then have run': "IterateAnnotations (clock_at t s) (keys_of t s) s (client t) (v @ w) =
      (r, s', v @ w')"
    by (simp add: IterateAnnotations_prefix)
  show ?case
  proof (cases r)
    case None
    with run run' show ?thesis
      using Cons.IH [of w] Cons.IH [of w'] by simp
  next
    case (Some err)
    with run run' show ?thesis
      using Cons.IH [of w] Cons.IH [of "w' @ [Printed (Error err @ newline)]"] by simp
  qed
qed

lemma iterate_keys_append:
  "iterate_keys now (xs @ ys) s c w =
     (case iterate_keys now xs s c w of
        (Some err, s', w') \<Rightarrow> (Some err, s', w')
      | (None, s', w') \<Rightarrow> iterate_keys now ys s' c w')"
  by (induction xs arbitrary: s w) (simp_all add: Let_def split: option.splits prod.splits)

lemma failed_retraction_returns:
  assumes "iterate_keys now pre s c w = (None, s0, w0)"
    and "lookup s0 a = Some v" "HasPrefix a annotationKeyPrefix" "IsExpired v now"
    and "RemoveIpFromService (TrimPrefix a (annotationKeyPrefix @ ''.'')) s0 c
           (w0 @ [Printed (''Time to remove this rule: '' @ a @ newline)]) = (Some err, s1, w1)"
  shows "iterate_keys now (pre @ a # rest) s c w = (Some err, s1, w1)"
  using assms by (simp add: iterate_keys_append)

lemma sweep_items_failed:
  assumes "IsAutoManaged s"
    and "IterateAnnotations (clock_at t s) (keys_of t s) s (client t) w = (Some err, s1, w1)"
  shows "sweep_items t (s # ss) w = w1 @ [Printed (Error err @ newline)] @ sweep_items t ss []"
proof -
  from assms have "sweep_items t (s # ss) w = sweep_items t ss (w1 @ [Printed (Error err @ newline)])"
    by simp
  also have "\<dots> = (w1 @ [Printed (Error err @ newline)]) @ sweep_items t ss []"
    using sweep_items_prefix [of t ss "w1 @ [Printed (Error err @ newline)]" "[]"] by simp
  finally show ?thesis by simp
qed

text \<open>
  Claim C3, as the code has it. When the retraction of an expired rule fails, the sweep
  of that service returns the error at once, whatever keys remain to be visited: the
  remaining rules of the service are not processed in this tick. The loop over the
  services writes the error to the log and goes on: the remaining services are swept
  exactly as they would be on their own.
\<close>

theorem failed_retraction_ends_sweep_of_its_service_only:
  "(iterate_keys (Format clock) pre s c w = (None, s0, w0) \<and>
    lookup s0 a = Some v \<and> HasPrefix a annotationKeyPrefix \<and> IsExpired v (Format clock) \<and>
    RemoveIpFromService (TrimPrefix a (annotationKeyPrefix @ ''.'')) s0 c
      (w0 @ [Printed (''Time to remove this rule: '' @ a @ newline)]) = (Some err, s1, w1) \<longrightarrow>
      IterateAnnotations clock (pre @ a # rest) s c w = (Some err, s1, w1)) \<and>
   (IsAutoManaged u \<and>
    IterateAnnotations (clock_at t u) (keys_of t u) u (client t) w = (Some err, u1, w1) \<longrightarrow>
      sweep_items t (u # us) w = w1 @ [Printed (Error err @ newline)] @ sweep_items t us [])"
proof (intro conjI impI)
  assume "iterate_keys (Format clock) pre s c w = (None, s0, w0) \<and>
    lookup s0 a = Some v \<and> HasPrefix a annotationKeyPrefix \<and> IsExpired v (Format clock) \<and>
    RemoveIpFromService (TrimPrefix a (annotationKeyPrefix @ ''.'')) s0 c
      (w0 @ [Printed (''Time to remove this rule: '' @ a @ newline)]) = (Some err, s1, w1)"
  then have "iterate_keys (Format clock) (pre @ a # rest) s c w = (Some err, s1, w1)"
    using failed_retraction_returns by blast
  then show "IterateAnnotations clock (pre @ a # rest) s c w = (Some err, s1, w1)"
    by (simp add: IterateAnnotations_def)
next
  assume "IsAutoManaged u \<and>
    IterateAnnotations (clock_at t u) (keys_of t u) u (client t) w = (Some err, u1, w1)"
  then show "sweep_items t (u # us) w = w1 @ [Printed (Error err @ newline)] @ sweep_items t us []"
    using sweep_items_failed by blast
qed

lemma stale_lookup:
  "lookup stale_service mgmtAnnotation = Some ''true''"
  "lookup stale_service (annotationKey ''10.0.0.1/32'') = Some ''2020-01-01 00:00:00''"
  "lookup stale_service (annotationKey ''10.0.0.2/32'') = Some ''2020-01-02 00:00:00''"
  using annotationKey_not_mgmt [of "''10.0.0.1/32''"] annotationKey_not_mgmt [of "''10.0.0.2/32''"]
  by (auto simp: lookup_def stale_service_def annotationKey_inj)

lemma stale_RemoveIp:
  "RemoveIpFromService ''10.0.0.1/32'' stale_service c w = (Some AddressNotFound, stale_service, w)"
  by (rule RemoveIp_rejected) (simp add: stale_service_def reconcileSourceRanges_def)

lemma stale_expired:
  "IsExpired ''2020-01-01 00:00:00'' (Format example_clock)"
  "IsExpired ''2020-01-02 00:00:00'' (Format example_clock)"
  by (simp_all add: IsExpired_def example_clock_string)

lemma stale_sweep:
  "IterateAnnotations example_clock
      [annotationKey ''10.0.0.1/32'', annotationKey ''10.0.0.2/32'', mgmtAnnotation]
      stale_service c w =
     (Some AddressNotFound, stale_service,
      w @ [Printed (''Time to remove this rule: '' @ annotationKey ''10.0.0.1/32'' @ newline)])"
  by (simp add: IterateAnnotations_def stale_lookup stale_expired HasPrefix_annotationKey
      TrimPrefix_annotationKey stale_RemoveIp)

text \<open>
  A service with two expired rules, the first without its range in the allow-list: the
  sweep returns the error of the first and leaves the second rule in place, its range
  still in the allow-list, with no update submitted.
\<close>

theorem failed_retraction_counterexample:
  "IsAutoManaged stale_service \<and>
   lookup stale_service (annotationKey ''10.0.0.2/32'') = Some ''2020-01-02 00:00:00'' \<and>
   IsExpired ''2020-01-02 00:00:00'' (Format example_clock) \<and>
   ''10.0.0.2/32'' \<in> set (LoadBalancerSourceRanges stale_service) \<and>
   IterateAnnotations example_clock
      [annotationKey ''10.0.0.1/32'', annotationKey ''10.0.0.2/32'', mgmtAnnotation]
      stale_service accepting_client [] =
     (Some AddressNotFound, stale_service,
      [Printed (''Time to remove this rule: '' @ annotationKey ''10.0.0.1/32'' @ newline)]) \<and>
   update_calls (sweep_items example_tick [stale_service] []) = []"
proof -
  have m: "IsAutoManaged stale_service"
    by (simp add: IsAutoManaged_lookup stale_lookup)
  have run: "IterateAnnotations (clock_at example_tick stale_service)
      (keys_of example_tick stale_service) stale_service (client example_tick) [] =
      (Some AddressNotFound, stale_service,
       [Printed (''Time to remove this rule: '' @ annotationKey ''10.0.0.1/32'' @ newline)])"
    using stale_sweep [of accepting_client "[]"] by (simp add: example_tick_def)
  have "sweep_items example_tick [stale_service] [] =
      [Printed (''Time to remove this rule: '' @ annotationKey ''10.0.0.1/32'' @ newline),
       Printed (Error AddressNotFound @ newline)]"
    using m run by simp
  then have none: "update_calls (sweep_items example_tick [stale_service] []) = []"
    by simp
  have there: "''10.0.0.2/32'' \<in> set (LoadBalancerSourceRanges stale_service)"
    by (simp add: stale_service_def)
  show ?thesis
    using m stale_lookup(3) stale_expired(2) there stale_sweep [of accepting_client "[]"] none
    by simp
qed

text \<open>The theorem at that service, followed in the list by a service with one rule.\<close>

theorem failed_retraction_ends_sweep_of_its_service_only_witness:
  "IterateAnnotations example_clock
      ([] @ annotationKey ''10.0.0.1/32'' # [annotationKey ''10.0.0.2/32'', mgmtAnnotation])
      stale_service accepting_client [] =
     (Some AddressNotFound, stale_service,
      [Printed (''Time to remove this rule: '' @ annotationKey ''10.0.0.1/32'' @ newline)]) \<and>
   IsAutoManaged stale_service \<and>
   sweep_items example_tick [stale_service, granted_service] [] =
     [Printed (''Time to remove this rule: '' @ annotationKey ''10.0.0.1/32'' @ newline)] @
     [Printed (Error AddressNotFound @ newline)] @
     sweep_items example_tick [granted_service] []"
proof -
  let ?line = "Printed (''Time to remove this rule: '' @ annotationKey ''10.0.0.1/32'' @ newline)"
  have h1: "iterate_keys (Format example_clock) [] stale_service accepting_client [] =
      (None, stale_service, [])"
    by simp
  have h2: "RemoveIpFromService (TrimPrefix (annotationKey ''10.0.0.1/32'') (annotationKeyPrefix @ ''.''))
      stale_service accepting_client ([] @ [?line]) = (Some AddressNotFound, stale_service, [?line])"
    by (simp add: TrimPrefix_annotationKey stale_RemoveIp)
  have m: "IsAutoManaged stale_service"
    by (simp add: IsAutoManaged_lookup stale_lookup)
  have h3: "IterateAnnotations (clock_at example_tick stale_service)
      (keys_of example_tick stale_service) stale_service (client example_tick) [] =
      (Some AddressNotFound, stale_service, [?line])"
    using stale_sweep [of accepting_client "[]"] by (simp add: example_tick_def)
  note t = failed_retraction_ends_sweep_of_its_service_only
    [where clock = example_clock and pre = "[]" and s = stale_service and c = accepting_client
      and w = "[]" and ?s0.0 = stale_service and ?w0.0 = "[]"
      and a = "annotationKey ''10.0.0.1/32''" and v = "''2020-01-01 00:00:00''"
      and err = AddressNotFound and ?s1.0 = stale_service and ?w1.0 = "[?line]"
      and rest = "[annotationKey ''10.0.0.2/32'', mgmtAnnotation]"
      and u = stale_service and t = example_tick and ?u1.0 = stale_service
      and us = "[granted_service]"]
  from t h1 h2 h3 m stale_lookup(2) stale_expired(1) HasPrefix_annotationKey
  show ?thesis
    by blast
qed

text \<open>
  Claim C9, as the code has it. The error of the listing is discarded: a tick depends
  only on the items behind the returned pointer. With the empty list that the client
  hands back on failure the tick leaves the effects as they are (no line written, no
  update submitted) and the worker goes on with the following ticks as if the tick had
  not fired. A nil pointer ends the worker with a panic.
\<close>

theorem failed_listing_is_dropped_without_a_log_line:
  "(ServicesList (client t) = (Some [], Some err) \<longrightarrow>
      sweep_tick t w = Inr w \<and> backgroundWorker (t # ts) w = backgroundWorker ts w) \<and>
   (ServicesList (client t) = (Some items, e) \<longrightarrow>
      sweep_tick t w = Inr (sweep_items t items w)) \<and>
   (ServicesList (client t) = (None, e) \<longrightarrow>
      backgroundWorker (t # ts) w = Inl NilPointerPanic)"
  by (simp add: sweep_tick_def GetServiceList_def)

text \<open>The theorem at a tick whose listing fails, followed by a working tick.\<close>

theorem failed_listing_is_dropped_without_a_log_line_witness:
  "ServicesList (client failing_tick) = (Some [], Some (Remote ''connection refused'')) \<and>
   sweep_tick failing_tick [] = Inr [] \<and>
   backgroundWorker [failing_tick, example_tick] [] = backgroundWorker [example_tick] []"
proof -
  have l: "ServicesList (client failing_tick) = (Some [], Some (Remote ''connection refused''))"
    by (simp add: failing_tick_def failing_client_def)
  with failed_listing_is_dropped_without_a_log_line
    [of failing_tick "Remote ''connection refused''" "[]" "[example_tick]"]
  show ?thesis
    by blast
qed

text \<open>A tick whose listing fails writes no line at all.\<close>

theorem failed_listing_counterexample:
  "ServicesList (client failing_tick) = (Some [], Some (Remote ''connection refused'')) \<and>
   (\<exists>w. backgroundWorker [failing_tick] [] = Inr w \<and> printed w = [])"
  by (simp add: failing_tick_def failing_client_def sweep_tick_def GetServiceList_def)

end
